theory Spec2Isabelle
  imports Complex_Main "HOL-Library.Multiset"
begin

section \<open>Bounding boxes\<close>

text \<open>
  The script \<^verbatim>\<open>scripts/autoslice_aerostan_t1.py\<close> works on axis-aligned boxes whose
  four coordinates are Python floats. The coordinates are modelled as \<^typ>\<open>real\<close>:
  comparisons, \<open>min\<close> and \<open>max\<close> are exact on floats. Clustering, selection and
  the path interpreter are modelled with exact sums; for the square crop and for canvas
  sizing, whose results depend on it, the rounding of every floating-point operation is
  written out. The coordinates of a box given as input are finite.
\<close>

record BBox =
  minx :: real
  miny :: real
  maxx :: real
  maxy :: real

text \<open>\<^verbatim>\<open>BBox.union\<close>\<close>

definition bbox_union :: "BBox \<Rightarrow> BBox \<Rightarrow> BBox" where
  "bbox_union self other =
     \<lparr>minx = min (minx self) (minx other),
      miny = min (miny self) (miny other),
      maxx = max (maxx self) (maxx other),
      maxy = max (maxy self) (maxy other)\<rparr>"

text \<open>\<^verbatim>\<open>BBox.cx\<close>, \<^verbatim>\<open>BBox.cy\<close>, \<^verbatim>\<open>BBox.w\<close>, \<^verbatim>\<open>BBox.h\<close>\<close>

definition bbox_cx :: "BBox \<Rightarrow> real" where
  "bbox_cx self = (minx self + maxx self) / 2"

definition bbox_cy :: "BBox \<Rightarrow> real" where
  "bbox_cy self = (miny self + maxy self) / 2"

definition bbox_w :: "BBox \<Rightarrow> real" where
  "bbox_w self = maxx self - minx self"

definition bbox_h :: "BBox \<Rightarrow> real" where
  "bbox_h self = maxy self - miny self"

text \<open>\<^verbatim>\<open>BBox.overlaps\<close>: the negation of "separated on some axis by more than pad".\<close>

definition overlaps :: "BBox \<Rightarrow> BBox \<Rightarrow> real \<Rightarrow> bool" where
  "overlaps self other pad =
     (\<not> (maxx self + pad < minx other
         \<or> maxx other + pad < minx self
         \<or> maxy self + pad < miny other
         \<or> maxy other + pad < miny self))"

section \<open>Clustering\<close>

text \<open>
  The inner \<^verbatim>\<open>for i, c in enumerate(clusters)\<close> loop of \<^verbatim>\<open>cluster_bboxes\<close>: the first
  cluster that overlaps \<open>b\<close> is replaced by its union with \<open>b\<close> and the search stops.
  \<open>None\<close> is the case where the flag (\<^verbatim>\<open>merged\<close>, \<^verbatim>\<open>did\<close>) stays false.
\<close>

fun merge_first :: "real \<Rightarrow> BBox \<Rightarrow> BBox list \<Rightarrow> BBox list option" where
  "merge_first proximity b [] = None"
| "merge_first proximity b (c # cs) =
     (if overlaps c b proximity then Some (bbox_union c b # cs)
      else (case merge_first proximity b cs of
              None \<Rightarrow> None
            | Some cs' \<Rightarrow> Some (c # cs')))"

text \<open>The first loop of \<^verbatim>\<open>cluster_bboxes\<close>, with \<open>clusters\<close> as the accumulator.\<close>

fun greedy :: "real \<Rightarrow> BBox list \<Rightarrow> BBox list \<Rightarrow> BBox list" where
  "greedy proximity clusters [] = clusters"
| "greedy proximity clusters (b # bs) =
     (case merge_first proximity b clusters of
        Some clusters' \<Rightarrow> greedy proximity clusters' bs
      | None \<Rightarrow> greedy proximity (clusters @ [b]) bs)"

text \<open>
  One pass of the \<^verbatim>\<open>while changed\<close> loop: the \<^verbatim>\<open>for b in clusters\<close> loop with the
  list \<open>out\<close> and the flag \<open>changed\<close> as state.
\<close>

fun pass_loop :: "real \<Rightarrow> BBox list \<Rightarrow> bool \<Rightarrow> BBox list \<Rightarrow> BBox list \<times> bool" where
  "pass_loop proximity out changed [] = (out, changed)"
| "pass_loop proximity out changed (b # bs) =
     (case merge_first proximity b out of
        Some out' \<Rightarrow> pass_loop proximity out' True bs
      | None \<Rightarrow> pass_loop proximity (out @ [b]) changed bs)"

definition pass :: "real \<Rightarrow> BBox list \<Rightarrow> BBox list \<times> bool" where
  "pass proximity clusters = pass_loop proximity [] False clusters"

lemma merge_first_length:
  "merge_first p b cs = Some cs' \<Longrightarrow> length cs' = length cs"
  by (induction cs arbitrary: cs') (auto split: if_splits option.splits)

lemma pass_loop_length:
  "pass_loop p out ch bs = (out', ch') \<Longrightarrow>
     length out' \<le> length out + length bs \<and>
     (ch' \<and> \<not> ch \<longrightarrow> length out' < length out + length bs)"
proof (induction bs arbitrary: out ch)
  case Nil
  then show ?case by auto
next
  case (Cons b bs)
  show ?case
  proof (cases "merge_first p b out")
    case None
    with Cons.prems have "pass_loop p (out @ [b]) ch bs = (out', ch')" by simp
    from Cons.IH[OF this] show ?thesis by simp
  next
    case (Some out1)
    with Cons.prems have "pass_loop p out1 True bs = (out', ch')" by simp
    from Cons.IH[OF this] merge_first_length[OF Some] show ?thesis by simp
  qed
qed

lemma pass_changed_shorter:
  "pass p cs = (out, True) \<Longrightarrow> length out < length cs"
  using pass_loop_length[of p "[]" False cs out True] by (simp add: pass_def)

text \<open>
  The \<^verbatim>\<open>while changed\<close> loop: at least one pass runs, and the loop is left after the
  first pass that merges nothing.
\<close>

function stabilise :: "real \<Rightarrow> BBox list \<Rightarrow> BBox list" where
  "stabilise proximity clusters =
     (case pass proximity clusters of
        (out, changed) \<Rightarrow> if changed then stabilise proximity out else out)"
  by pat_completeness auto
termination
  by (relation "measure (\<lambda>(p, cs). length cs)") (auto dest: pass_changed_shorter [OF sym])

declare stabilise.simps [simp del]

definition cluster_bboxes :: "BBox list \<Rightarrow> real \<Rightarrow> BBox list" where
  "cluster_bboxes bboxes proximity = stabilise proximity (greedy proximity [] bboxes)"


section \<open>Viewport cropping and canvas sizing\<close>


text \<open>
  Python 3's \<^verbatim>\<open>round\<close> of a float to an integer: to the nearest integer, a tie going
  to the even neighbour.
\<close>

definition py_round :: "real \<Rightarrow> int" where
  "py_round v =
     (let f = \<lfloor>v\<rfloor>; d = v - of_int f
      in if d < 1 / 2 then f
         else if 1 / 2 < d then f + 1
         else if even f then f else f + 1)"

text \<open>
  Where a claim is an exact equality between computed floats, the rounding of each
  operation is written out. \<open>round_double v\<close> is the binary64 value nearest to \<open>v\<close>,
  a tie going to the even significand, for \<open>v\<close> in the normal range: \<open>v\<close> is scaled to
  a 53-bit integer significand, rounded, and scaled back.
\<close>

definition round_double :: "real \<Rightarrow> real" where
  "round_double v =
     (if v = 0 then 0
      else (let e = \<lfloor>log 2 \<bar>v\<bar>\<rfloor> - 52
            in of_int (py_round (v * 2 powr (- of_int e))) * 2 powr (of_int e)))"




section \<open>Canvas sizing on floats\<close>

text \<open>The exceptions of the script's functions that reach the caller.\<close>

datatype error = ValueError | IndexError | OverflowError | ZeroDivisionError

text \<open>
  Canvas sizing rounds a quotient and a product of floats to an integer, so its result
  depends on the rounding of each operation and on overflow. A Python float is a finite
  value, an infinity or NaN (signed zeros are not told apart).
\<close>

datatype pyfloat = Finite real | PosInf | NegInf | NaN

text \<open>
  The binary64 result of an operation whose exact result is \<open>v\<close>: nearest value, a tie
  going to the even significand; below \<open>2^-1022\<close> the spacing stays \<open>2^-1074\<close>
  (subnormal numbers); a result that rounds to \<open>2^1024\<close> or beyond is an infinity.
\<close>

definition to_double :: "real \<Rightarrow> pyfloat" where
  "to_double v =
     (if v = 0 then Finite 0
      else (let e = max (\<lfloor>log 2 \<bar>v\<bar>\<rfloor> - 52) (- 1074);
                r = of_int (py_round (v * 2 powr (- of_int e))) * 2 powr (of_int e)
            in if \<bar>r\<bar> < 2 ^ 1024 then Finite r
               else if 0 < v then PosInf else NegInf))"

text \<open>\<open>float_gt x y\<close> is \<^verbatim>\<open>x > y\<close>; any comparison with NaN is false.\<close>

fun float_gt :: "pyfloat \<Rightarrow> pyfloat \<Rightarrow> bool" where
  "float_gt NaN y = False"
| "float_gt x NaN = False"
| "float_gt PosInf PosInf = False"
| "float_gt PosInf y = True"
| "float_gt x PosInf = False"
| "float_gt NegInf y = False"
| "float_gt x NegInf = True"
| "float_gt (Finite a) (Finite b) = (b < a)"

text \<open>
  \<^verbatim>\<open>max(x, y)\<close> on two floats: the built-in keeps \<open>x\<close> unless \<open>y > x\<close>.
\<close>

definition py_max :: "pyfloat \<Rightarrow> pyfloat \<Rightarrow> pyfloat" where
  "py_max x y = (if float_gt y x then y else x)"

text \<open>
  \<^verbatim>\<open>x / y\<close> on floats: a zero divisor raises \<^verbatim>\<open>ZeroDivisionError\<close>; overflow gives an
  infinity, not an exception.
\<close>

fun float_div :: "pyfloat \<Rightarrow> pyfloat \<Rightarrow> error + pyfloat" where
  "float_div x (Finite b) =
     (if b = 0 then Inl ZeroDivisionError
      else (case x of
              Finite a \<Rightarrow> Inr (to_double (a / b))
            | PosInf \<Rightarrow> Inr (if 0 < b then PosInf else NegInf)
            | NegInf \<Rightarrow> Inr (if 0 < b then NegInf else PosInf)
            | NaN \<Rightarrow> Inr NaN))"
| "float_div NaN y = Inr NaN"
| "float_div x NaN = Inr NaN"
| "float_div (Finite a) y = Inr (Finite 0)"
| "float_div x y = Inr NaN"

text \<open>\<^verbatim>\<open>x * y\<close> on floats.\<close>

fun float_mul :: "pyfloat \<Rightarrow> pyfloat \<Rightarrow> pyfloat" where
  "float_mul NaN y = NaN"
| "float_mul x NaN = NaN"
| "float_mul (Finite a) (Finite b) = to_double (a * b)"
| "float_mul (Finite a) PosInf = (if a = 0 then NaN else if 0 < a then PosInf else NegInf)"
| "float_mul (Finite a) NegInf = (if a = 0 then NaN else if 0 < a then NegInf else PosInf)"
| "float_mul PosInf (Finite b) = (if b = 0 then NaN else if 0 < b then PosInf else NegInf)"
| "float_mul NegInf (Finite b) = (if b = 0 then NaN else if 0 < b then NegInf else PosInf)"
| "float_mul PosInf PosInf = PosInf"
| "float_mul PosInf NegInf = NegInf"
| "float_mul NegInf PosInf = NegInf"
| "float_mul NegInf NegInf = PosInf"

text \<open>
  The conversion of an \<^verbatim>\<open>int\<close> operand to float in \<^verbatim>\<open>max_w * ...\<close>: correctly rounded,
  \<^verbatim>\<open>OverflowError\<close> when the integer is too large.
\<close>

definition int_to_float :: "int \<Rightarrow> error + pyfloat" where
  "int_to_float m =
     (case to_double (of_int m) of
        Finite r \<Rightarrow> Inr (Finite r)
      | _ \<Rightarrow> Inl OverflowError)"

text \<open>
  \<^verbatim>\<open>round(x)\<close> of a float: \<^verbatim>\<open>OverflowError\<close> on an infinity, \<^verbatim>\<open>ValueError\<close> on NaN.
\<close>

fun float_round :: "pyfloat \<Rightarrow> error + int" where
  "float_round (Finite r) = Inr (py_round r)"
| "float_round PosInf = Inl OverflowError"
| "float_round NegInf = Inl OverflowError"
| "float_round NaN = Inl ValueError"

text \<open>\<^verbatim>\<open>BBox.w\<close> and \<^verbatim>\<open>BBox.h\<close> as the floats the code computes.\<close>

definition float_w :: "BBox \<Rightarrow> pyfloat" where
  "float_w self = to_double (maxx self - minx self)"

definition float_h :: "BBox \<Rightarrow> pyfloat" where
  "float_h self = to_double (maxy self - miny self)"

text \<open>
  \<^verbatim>\<open>svg_canvas_for_viewbox\<close>. The quotient \<^verbatim>\<open>h / w\<close> is evaluated before the integer
  \<^verbatim>\<open>max_w\<close> is converted for the product.
\<close>

definition svg_canvas_for_viewbox :: "BBox \<Rightarrow> int \<Rightarrow> error + (int \<times> int)" where
  "svg_canvas_for_viewbox vb max_w =
     (let w = py_max (float_w vb) (Finite 1);
          h = py_max (float_h vb) (Finite 1);
          width = max_w
      in case float_div h w of
           Inl e \<Rightarrow> Inl e
         | Inr q \<Rightarrow>
             (case int_to_float max_w of
                Inl e \<Rightarrow> Inl e
              | Inr m \<Rightarrow>
                  (case float_round (float_mul m q) of
                     Inl e \<Rightarrow> Inl e
                   | Inr height \<Rightarrow> Inr (width, max 220 (min 640 height)))))"

text \<open>
  Canvas height as the specification words it: the ratio of the viewport's own height and
  width, a dimension being replaced by 1 only when it is not greater than zero.
\<close>

definition spec_canvas_height :: "BBox \<Rightarrow> int \<Rightarrow> int" where
  "spec_canvas_height vb max_w =
     (let w = (if bbox_w vb \<le> 0 then 1 else bbox_w vb);
          h = (if bbox_h vb \<le> 0 then 1 else bbox_h vb)
      in max 220 (min 640 (py_round (of_int max_w * h / w))))"

section \<open>Selection of the top row\<close>

text \<open>Reading a list at a non-negative index raises \<^verbatim>\<open>IndexError\<close> out of range.\<close>

definition py_index :: "'a list \<Rightarrow> nat \<Rightarrow> error + 'a" where
  "py_index xs i = (if i < length xs then Inr (xs ! i) else Inl IndexError)"

text \<open>The size filter of \<^verbatim>\<open>main\<close>: \<^verbatim>\<open>c.w() > 80 and c.h() > 60\<close>.\<close>

definition plausible :: "BBox \<Rightarrow> bool" where
  "plausible c = (80 < bbox_w c \<and> 60 < bbox_h c)"

text \<open>
  The selection steps of \<^verbatim>\<open>main\<close>: filter by size, stable sort by vertical centre,
  keep the first three, stable sort by horizontal centre, then read positions 0, 1 and 2
  for the three named outputs. The requested count is the constant 3 of the script.
\<close>

definition main_select :: "BBox list \<Rightarrow> error + (BBox \<times> BBox \<times> BBox)" where
  "main_select clusters =
     (let clusters1 = filter plausible clusters;
          clusters2 = sort_key bbox_cy clusters1;
          top = take 3 clusters2;
          top' = sort_key bbox_cx top
      in case py_index top' 0 of
           Inl e \<Rightarrow> Inl e
         | Inr ake \<Rightarrow>
             (case py_index top' 1 of
                Inl e \<Rightarrow> Inl e
              | Inr akh \<Rightarrow>
                  (case py_index top' 2 of
                     Inl e \<Rightarrow> Inl e
                   | Inr ld9 \<Rightarrow> Inr (ake, akh, ld9))))"


section \<open>The path interpreter\<close>

text \<open>
  \<^verbatim>\<open>bbox_from_path_d\<close> first cuts the string into tokens with a regular expression. A
  token is one of the twenty command letters or a numeric literal; \<open>Number v\<close> stands for
  a numeric token whose \<^verbatim>\<open>float\<close> value is \<open>v\<close>.
\<close>

datatype token = Letter char | Number real

text \<open>
  The local variables of the interpreter. The four extrema start at plus and minus
  infinity and are set together by \<^verbatim>\<open>add_point\<close>: \<open>bounds\<close> is \<open>None\<close> as long as
  they hold their initial values.
\<close>

record interp_state =
  cur_x :: real
  cur_y :: real
  start_x :: real
  start_y :: real
  bounds :: "BBox option"
  cmd :: "char option"

definition add_point :: "BBox option \<Rightarrow> real \<Rightarrow> real \<Rightarrow> BBox option" where
  "add_point acc px py =
     (case acc of
        None \<Rightarrow> Some \<lparr>minx = px, miny = py, maxx = px, maxy = py\<rparr>
      | Some b \<Rightarrow> Some \<lparr>minx = min (minx b) px, miny = min (miny b) py,
                         maxx = max (maxx b) px, maxy = max (maxy b) py\<rparr>)"

text \<open>
  \<^verbatim>\<open>take_numbers(i, n)\<close>, on the tokens from position \<open>i\<close> on: up to \<open>n\<close> tokens are
  converted with \<^verbatim>\<open>float\<close>, which raises \<^verbatim>\<open>ValueError\<close> on a command letter. The
  second component is the list of tokens left.
\<close>

fun take_numbers :: "token list \<Rightarrow> nat \<Rightarrow> error + (real list \<times> token list)" where
  "take_numbers toks 0 = Inr ([], toks)"
| "take_numbers [] (Suc n) = Inr ([], [])"
| "take_numbers (Letter c # toks) (Suc n) = Inl ValueError"
| "take_numbers (Number v # toks) (Suc n) =
     (case take_numbers toks n of
        Inl e \<Rightarrow> Inl e
      | Inr (out, rest) \<Rightarrow> Inr (v # out, rest))"

text \<open>
  What one iteration of the \<^verbatim>\<open>while\<close> loop does: it raises (\<open>Inl\<close>), leaves the loop
  with \<^verbatim>\<open>break\<close> (\<open>Inr None\<close>), or goes on with a new state and the tokens left.
\<close>

type_synonym outcome = "error + (interp_state \<times> token list) option"

text \<open>
  Every branch of the loop body that reads numbers has the same frame:
  \<^verbatim>\<open>nums, i = take_numbers(i, n)\<close>, then \<^verbatim>\<open>break\<close> when fewer than \<open>n\<close> numbers
  came back, else the update of the state and \<^verbatim>\<open>continue\<close>.
\<close>

definition with_numbers ::
  "nat \<Rightarrow> token list \<Rightarrow> (real list \<Rightarrow> interp_state) \<Rightarrow> outcome" where
  "with_numbers n toks update =
     (case take_numbers toks n of
        Inl e \<Rightarrow> Inl e
      | Inr (nums, rest) \<Rightarrow>
          if length nums < n then Inr None else Inr (Some (update nums, rest)))"

text \<open>The branches of the loop body, one per \<^verbatim>\<open>if cmd in "..."\<close> block.\<close>

definition cmd_Mm :: "char \<Rightarrow> interp_state \<Rightarrow> token list \<Rightarrow> outcome" where
  "cmd_Mm c s toks =
     with_numbers 2 toks
       (\<lambda>nums. let nx = (if c = CHR ''m'' then nums ! 0 + cur_x s else nums ! 0);
                   ny = (if c = CHR ''m'' then nums ! 1 + cur_y s else nums ! 1)
               in s\<lparr>cur_x := nx, cur_y := ny, start_x := nx, start_y := ny,
                    bounds := add_point (bounds s) nx ny,
                    cmd := Some (if c = CHR ''M'' then CHR ''L'' else CHR ''l'')\<rparr>)"

definition cmd_Ll :: "char \<Rightarrow> interp_state \<Rightarrow> token list \<Rightarrow> outcome" where
  "cmd_Ll c s toks =
     with_numbers 2 toks
       (\<lambda>nums. let nx = (if c = CHR ''l'' then nums ! 0 + cur_x s else nums ! 0);
                   ny = (if c = CHR ''l'' then nums ! 1 + cur_y s else nums ! 1)
               in s\<lparr>cur_x := nx, cur_y := ny,
                    bounds := add_point (bounds s) nx ny\<rparr>)"

definition cmd_Hh :: "char \<Rightarrow> interp_state \<Rightarrow> token list \<Rightarrow> outcome" where
  "cmd_Hh c s toks =
     with_numbers 1 toks
       (\<lambda>nums. let nx = nums ! 0 + (if c = CHR ''h'' then cur_x s else 0)
               in s\<lparr>cur_x := nx,
                    bounds := add_point (bounds s) nx (cur_y s)\<rparr>)"

definition cmd_Vv :: "char \<Rightarrow> interp_state \<Rightarrow> token list \<Rightarrow> outcome" where
  "cmd_Vv c s toks =
     with_numbers 1 toks
       (\<lambda>nums. let ny = nums ! 0 + (if c = CHR ''v'' then cur_y s else 0)
               in s\<lparr>cur_y := ny,
                    bounds := add_point (bounds s) (cur_x s) ny\<rparr>)"

definition cmd_Cc :: "char \<Rightarrow> interp_state \<Rightarrow> token list \<Rightarrow> outcome" where
  "cmd_Cc c s toks =
     with_numbers 6 toks
       (\<lambda>nums. let x1 = (if c = CHR ''c'' then nums ! 0 + cur_x s else nums ! 0);
                   y1 = (if c = CHR ''c'' then nums ! 1 + cur_y s else nums ! 1);
                   x2 = (if c = CHR ''c'' then nums ! 2 + cur_x s else nums ! 2);
                   y2 = (if c = CHR ''c'' then nums ! 3 + cur_y s else nums ! 3);
                   nx = (if c = CHR ''c'' then nums ! 4 + cur_x s else nums ! 4);
                   ny = (if c = CHR ''c'' then nums ! 5 + cur_y s else nums ! 5)
               in s\<lparr>cur_x := nx, cur_y := ny,
                    bounds := add_point (add_point (add_point (bounds s) x1 y1) x2 y2) nx ny\<rparr>)"

definition cmd_Ss :: "char \<Rightarrow> interp_state \<Rightarrow> token list \<Rightarrow> outcome" where
  "cmd_Ss c s toks =
     with_numbers 4 toks
       (\<lambda>nums. let x2 = (if c = CHR ''s'' then nums ! 0 + cur_x s else nums ! 0);
                   y2 = (if c = CHR ''s'' then nums ! 1 + cur_y s else nums ! 1);
                   nx = (if c = CHR ''s'' then nums ! 2 + cur_x s else nums ! 2);
                   ny = (if c = CHR ''s'' then nums ! 3 + cur_y s else nums ! 3)
               in s\<lparr>cur_x := nx, cur_y := ny,
                    bounds := add_point (add_point (bounds s) x2 y2) nx ny\<rparr>)"

definition cmd_Qq :: "char \<Rightarrow> interp_state \<Rightarrow> token list \<Rightarrow> outcome" where
  "cmd_Qq c s toks =
     with_numbers 4 toks
       (\<lambda>nums. let x1 = (if c = CHR ''q'' then nums ! 0 + cur_x s else nums ! 0);
                   y1 = (if c = CHR ''q'' then nums ! 1 + cur_y s else nums ! 1);
                   nx = (if c = CHR ''q'' then nums ! 2 + cur_x s else nums ! 2);
                   ny = (if c = CHR ''q'' then nums ! 3 + cur_y s else nums ! 3)
               in s\<lparr>cur_x := nx, cur_y := ny,
                    bounds := add_point (add_point (bounds s) x1 y1) nx ny\<rparr>)"

definition cmd_Tt :: "char \<Rightarrow> interp_state \<Rightarrow> token list \<Rightarrow> outcome" where
  "cmd_Tt c s toks =
     with_numbers 2 toks
       (\<lambda>nums. let nx = (if c = CHR ''t'' then nums ! 0 + cur_x s else nums ! 0);
                   ny = (if c = CHR ''t'' then nums ! 1 + cur_y s else nums ! 1)
               in s\<lparr>cur_x := nx, cur_y := ny,
                    bounds := add_point (bounds s) nx ny\<rparr>)"

definition cmd_Aa :: "char \<Rightarrow> interp_state \<Rightarrow> token list \<Rightarrow> outcome" where
  "cmd_Aa c s toks =
     with_numbers 7 toks
       (\<lambda>nums. let nx = (if c = CHR ''a'' then nums ! 5 + cur_x s else nums ! 5);
                   ny = (if c = CHR ''a'' then nums ! 6 + cur_y s else nums ! 6)
               in s\<lparr>cur_x := nx, cur_y := ny,
                    bounds := add_point (bounds s) nx ny\<rparr>)"

text \<open>
  The loop body. A letter token becomes the active command, and \<open>Z\<close> or \<open>z\<close> moves
  the cursor to the start of the subpath and records that point. A numeric token with no
  active command leaves the loop; otherwise the active command decides, and a command
  that takes no numbers (\<open>Z\<close>, \<open>z\<close>) skips the token.
\<close>

definition step :: "interp_state \<Rightarrow> token list \<Rightarrow> outcome" where
  "step s toks =
     (case toks of
        [] \<Rightarrow> Inr None
      | Letter c # rest \<Rightarrow>
          if c \<in> set ''Zz''
          then Inr (Some (s\<lparr>cur_x := start_x s, cur_y := start_y s,
                            bounds := add_point (bounds s) (start_x s) (start_y s),
                            cmd := Some c\<rparr>, rest))
          else Inr (Some (s\<lparr>cmd := Some c\<rparr>, rest))
      | Number v # rest \<Rightarrow>
          (case cmd s of
             None \<Rightarrow> Inr None
           | Some c \<Rightarrow>
               if c \<in> set ''Mm'' then cmd_Mm c s toks
               else if c \<in> set ''Ll'' then cmd_Ll c s toks
               else if c \<in> set ''Hh'' then cmd_Hh c s toks
               else if c \<in> set ''Vv'' then cmd_Vv c s toks
               else if c \<in> set ''Cc'' then cmd_Cc c s toks
               else if c \<in> set ''Ss'' then cmd_Ss c s toks
               else if c \<in> set ''Qq'' then cmd_Qq c s toks
               else if c \<in> set ''Tt'' then cmd_Tt c s toks
               else if c \<in> set ''Aa'' then cmd_Aa c s toks
               else Inr (Some (s, rest))))"

lemma take_numbers_length:
  "take_numbers toks n = Inr (nums, rest) \<Longrightarrow> length nums + length rest = length toks \<and> length nums \<le> n"
  by (induction toks n arbitrary: nums rest rule: take_numbers.induct)
     (auto split: sum.splits prod.splits)

lemma with_numbers_shorter:
  assumes "with_numbers n toks f = Inr (Some (s', rest))" and "0 < n"
  shows "length rest < length toks"
proof -
  from assms(1) obtain nums where tn: "take_numbers toks n = Inr (nums, rest)" and "\<not> length nums < n"
    unfolding with_numbers_def by (auto split: sum.splits prod.splits if_splits)
  with take_numbers_length[OF tn] assms(2) show ?thesis by simp
qed


lemmas cmd_defs = cmd_Mm_def cmd_Ll_def cmd_Hh_def cmd_Vv_def cmd_Cc_def cmd_Ss_def
  cmd_Qq_def cmd_Tt_def cmd_Aa_def

lemma cmd_shorter:
  "cmd_Mm c s toks = Inr (Some (s', rest)) \<Longrightarrow> length rest < length toks"
  "cmd_Ll c s toks = Inr (Some (s', rest)) \<Longrightarrow> length rest < length toks"
  "cmd_Hh c s toks = Inr (Some (s', rest)) \<Longrightarrow> length rest < length toks"
  "cmd_Vv c s toks = Inr (Some (s', rest)) \<Longrightarrow> length rest < length toks"
  "cmd_Cc c s toks = Inr (Some (s', rest)) \<Longrightarrow> length rest < length toks"
  "cmd_Ss c s toks = Inr (Some (s', rest)) \<Longrightarrow> length rest < length toks"
  "cmd_Qq c s toks = Inr (Some (s', rest)) \<Longrightarrow> length rest < length toks"
  "cmd_Tt c s toks = Inr (Some (s', rest)) \<Longrightarrow> length rest < length toks"
  "cmd_Aa c s toks = Inr (Some (s', rest)) \<Longrightarrow> length rest < length toks"
  unfolding cmd_defs by (erule with_numbers_shorter, simp)+

lemma step_shorter:
  assumes "step s toks = Inr (Some (s', rest))"
  shows "length rest < length toks"
proof (cases toks)
  case Nil
  with assms show ?thesis by (simp add: step_def)
next
  case (Cons t ts)
  show ?thesis
  proof (cases t)
    case (Letter c)
    with Cons assms show ?thesis by (auto simp: step_def split: if_splits)
  next
    case (Number v)
    show ?thesis
    proof (cases "cmd s")
      case None
      with Cons Number assms show ?thesis by (simp add: step_def)
    next
      case (Some c)
      have "step s toks = cmd_Mm c s toks \<or> step s toks = cmd_Ll c s toks
          \<or> step s toks = cmd_Hh c s toks \<or> step s toks = cmd_Vv c s toks
          \<or> step s toks = cmd_Cc c s toks \<or> step s toks = cmd_Ss c s toks
          \<or> step s toks = cmd_Qq c s toks \<or> step s toks = cmd_Tt c s toks
          \<or> step s toks = cmd_Aa c s toks \<or> step s toks = Inr (Some (s, ts))"
        by (simp add: step_def Cons Number Some)
      with assms show ?thesis using cmd_shorter[of c s toks s' rest] Cons by auto
    qed
  qed
qed

text \<open>
  The \<^verbatim>\<open>while i < len(tokens)\<close> loop. Every iteration that goes on has consumed at
  least one token, which is what makes the loop finish.
\<close>

function interp :: "interp_state \<Rightarrow> token list \<Rightarrow> error + interp_state" where
  "interp s [] = Inr s"
| "interp s (t # ts) =
     (case step s (t # ts) of
        Inl e \<Rightarrow> Inl e
      | Inr None \<Rightarrow> Inr s
      | Inr (Some (s', rest)) \<Rightarrow> interp s' rest)"
  by pat_completeness auto
termination
  by (relation "measure (\<lambda>(s, toks). length toks)") (auto dest: step_shorter)

text \<open>The values of the local variables before the loop.\<close>

definition initial_state :: interp_state where
  "initial_state = \<lparr>cur_x = 0, cur_y = 0, start_x = 0, start_y = 0, bounds = None, cmd = None\<rparr>"

text \<open>
  \<^verbatim>\<open>bbox_from_path_d\<close> from the token list on: no token gives \<open>None\<close>, and after
  the loop the result is \<open>None\<close> when the extrema still hold their initial values.
\<close>

definition bbox_from_tokens :: "token list \<Rightarrow> error + BBox option" where
  "bbox_from_tokens tokens =
     (if tokens = [] then Inr None
      else (case interp initial_state tokens of
              Inl e \<Rightarrow> Inl e
            | Inr s \<Rightarrow> Inr (bounds s)))"

subsection \<open>Tokens of a path string\<close>

text \<open>
  \<^verbatim>\<open>re.findall\<close> with the pattern
  \<^verbatim>\<open>[MmLlHhVvCcSsQqTtAaZz]|[-+]?(?:\d*\.\d+|\d+)(?:[eE][-+]?\d+)?\<close>
  scans the string from the left: at each position a command letter is one token; else a
  number is matched as an optional sign, a mantissa (digits, a point and at least one
  digit, or failing that a non-empty run of digits) and an optional exponent (taken only
  when at least one digit follows the \<open>e\<close> and its optional sign); where neither
  matches, one character is skipped. Strings are lists of \<^typ>\<open>char\<close>, whose digits
  are \<open>0\<close> to \<open>9\<close>. The value of a numeric token is its decimal value.
\<close>

definition is_cmd_letter :: "char \<Rightarrow> bool" where
  "is_cmd_letter c = (c \<in> set ''MmLlHhVvCcSsQqTtAaZz'')"

definition is_digit :: "char \<Rightarrow> bool" where
  "is_digit c = (c \<in> set ''0123456789'')"

definition digit_value :: "char \<Rightarrow> nat" where
  "digit_value c = of_char c - 48"

definition digits_value :: "string \<Rightarrow> nat" where
  "digits_value ds = foldl (\<lambda>a c. 10 * a + digit_value c) 0 ds"

definition match_sign :: "string \<Rightarrow> bool \<times> string" where
  "match_sign s =
     (case s of
        [] \<Rightarrow> (False, s)
      | c # cs \<Rightarrow> if c = CHR ''-'' then (True, cs)
                  else if c = CHR ''+'' then (False, cs)
                  else (False, s))"

definition match_mantissa :: "string \<Rightarrow> (real \<times> string) option" where
  "match_mantissa s =
     (let ip = takeWhile is_digit s;
          r = dropWhile is_digit s;
          fp = takeWhile is_digit (tl r)
      in if r \<noteq> [] \<and> hd r = CHR ''.'' \<and> fp \<noteq> []
         then Some (real (digits_value ip) + real (digits_value fp) / 10 ^ length fp,
                    dropWhile is_digit (tl r))
         else if ip \<noteq> [] then Some (real (digits_value ip), r)
         else None)"

definition match_exponent :: "string \<Rightarrow> int \<times> string" where
  "match_exponent s =
     (case s of
        [] \<Rightarrow> (0, s)
      | c # cs \<Rightarrow>
          if c \<in> set ''eE''
          then (case match_sign cs of
                  (neg, r) \<Rightarrow>
                    let ds = takeWhile is_digit r
                    in if ds = [] then (0, s)
                       else (if neg then - int (digits_value ds) else int (digits_value ds),
                             dropWhile is_digit r))
          else (0, s))"

definition match_number :: "string \<Rightarrow> (real \<times> string) option" where
  "match_number s =
     (case match_sign s of
        (neg, r) \<Rightarrow>
          (case match_mantissa r of
             None \<Rightarrow> None
           | Some (m, r') \<Rightarrow>
               (case match_exponent r' of
                  (e, r'') \<Rightarrow>
                    let v = (if 0 \<le> e then m * 10 ^ nat e else m / 10 ^ nat (- e))
                    in Some (if neg then - v else v, r''))))"

lemma match_sign_length: "match_sign s = (neg, r) \<Longrightarrow> length r \<le> length s"
  by (auto simp: match_sign_def split: list.splits if_splits)

lemma match_mantissa_length: "match_mantissa s = Some (m, r) \<Longrightarrow> length r < length s"
proof -
  assume a: "match_mantissa s = Some (m, r)"
  have split: "length (takeWhile is_digit s) + length (dropWhile is_digit s) = length s"
    by (metis length_append takeWhile_dropWhile_id)
  have d2: "length (dropWhile is_digit (tl (dropWhile is_digit s))) \<le> length (tl (dropWhile is_digit s))"
    by (rule length_dropWhile_le)
  show ?thesis
  proof (cases "dropWhile is_digit s \<noteq> [] \<and> hd (dropWhile is_digit s) = CHR ''.''
                 \<and> takeWhile is_digit (tl (dropWhile is_digit s)) \<noteq> []")
    case True
    with a have "r = dropWhile is_digit (tl (dropWhile is_digit s))"
      by (simp add: match_mantissa_def Let_def)
    moreover from True have "length (tl (dropWhile is_digit s)) < length (dropWhile is_digit s)"
      by (cases "dropWhile is_digit s") auto
    ultimately show ?thesis using d2 split by simp
  next
    case False
    with a have "takeWhile is_digit s \<noteq> []" "r = dropWhile is_digit s"
      by (auto simp: match_mantissa_def Let_def split: if_splits)
    then show ?thesis using split by (cases "takeWhile is_digit s") auto
  qed
qed

lemma match_exponent_length: "match_exponent s = (e, r) \<Longrightarrow> length r \<le> length s"
proof (cases s)
  case Nil
  assume "match_exponent s = (e, r)"
  with Nil show ?thesis by (simp add: match_exponent_def)
next
  case (Cons c cs)
  assume a: "match_exponent s = (e, r)"
  obtain neg r1 where ms: "match_sign cs = (neg, r1)" by (cases "match_sign cs")
  from a Cons ms have "r = s \<or> r = dropWhile is_digit r1"
    by (auto simp: match_exponent_def Let_def split: if_splits)
  moreover have "length (dropWhile is_digit r1) \<le> length r1" by (rule length_dropWhile_le)
  ultimately show ?thesis using match_sign_length[OF ms] Cons by auto
qed

lemma match_number_length:
  assumes "match_number s = Some (v, r)"
  shows "length r < length s"
proof -
  obtain neg r1 where ms: "match_sign s = (neg, r1)" by (cases "match_sign s")
  from assms ms obtain m r2 where mm: "match_mantissa r1 = Some (m, r2)"
    by (auto simp: match_number_def split: option.splits)
  obtain e r3 where me: "match_exponent r2 = (e, r3)" by (cases "match_exponent r2")
  from assms ms mm me have "r = r3" by (simp add: match_number_def Let_def)
  with match_sign_length[OF ms] match_mantissa_length[OF mm] match_exponent_length[OF me]
  show ?thesis by simp
qed

function tokenize :: "string \<Rightarrow> token list" where
  "tokenize [] = []"
| "tokenize (c # cs) =
     (if is_cmd_letter c then Letter c # tokenize cs
      else (case match_number (c # cs) of
              Some (v, rest) \<Rightarrow> Number v # tokenize rest
            | None \<Rightarrow> tokenize cs))"
  by pat_completeness auto
termination
  by (relation "measure length") (auto dest: match_number_length)

text \<open>\<^verbatim>\<open>bbox_from_path_d\<close>\<close>

definition bbox_from_path_d :: "string \<Rightarrow> error + BBox option" where
  "bbox_from_path_d d = bbox_from_tokens (tokenize d)"



section \<open>Notions used to state the properties of clustering\<close>

text \<open>
  \<open>inside a b\<close>: box \<open>a\<close> lies within box \<open>b\<close>. \<open>covers cs x\<close>: some box of \<open>cs\<close>
  contains \<open>x\<close>. \<open>refines cs vs\<close>: every box of \<open>cs\<close> lies within a box of \<open>vs\<close>.
  \<open>separated p cs\<close>: no two boxes at different positions of \<open>cs\<close> pass the overlap
  test with pad \<open>p\<close>. \<open>well_formed b\<close>: the invariant of a box built from points,
  \<open>minx \<le> maxx\<close> and \<open>miny \<le> maxy\<close>.
\<close>

definition inside :: "BBox \<Rightarrow> BBox \<Rightarrow> bool" where
  "inside a b = (minx b \<le> minx a \<and> miny b \<le> miny a \<and> maxx a \<le> maxx b \<and> maxy a \<le> maxy b)"

definition covers :: "BBox list \<Rightarrow> BBox \<Rightarrow> bool" where
  "covers cs x = (\<exists>c \<in> set cs. inside x c)"

definition refines :: "BBox list \<Rightarrow> BBox list \<Rightarrow> bool" where
  "refines cs vs = (\<forall>c \<in> set cs. covers vs c)"

definition separated :: "real \<Rightarrow> BBox list \<Rightarrow> bool" where
  "separated p cs = (\<forall>i j. i < j \<and> j < length cs \<longrightarrow> \<not> overlaps (cs ! i) (cs ! j) p)"

definition well_formed :: "BBox \<Rightarrow> bool" where
  "well_formed b = (minx b \<le> maxx b \<and> miny b \<le> maxy b)"


text \<open>
  The \<^verbatim>\<open>while changed\<close> loop with a bound on the number of passes: \<open>None\<close> when the
  bound is reached before a pass merges nothing.
\<close>

fun stabilise_fuel :: "nat \<Rightarrow> real \<Rightarrow> BBox list \<Rightarrow> BBox list option" where
  "stabilise_fuel 0 proximity clusters = None"
| "stabilise_fuel (Suc n) proximity clusters =
     (case pass proximity clusters of
        (out, changed) \<Rightarrow> if changed then stabilise_fuel n proximity out else Some out)"





text \<open>
  \<open>cmd_arity c\<close>: how many numbers one argument group of command \<open>c\<close> takes in the
  loop body (0 for \<open>Z\<close>, \<open>z\<close> and for a character that is no command).
  \<open>implicit_cmd c\<close>: the command that is active after an argument group of \<open>c\<close>.
\<close>

definition cmd_arity :: "char \<Rightarrow> nat" where
  "cmd_arity c =
     (if c \<in> set ''MmLlTt'' then 2
      else if c \<in> set ''HhVv'' then 1
      else if c \<in> set ''Cc'' then 6
      else if c \<in> set ''SsQq'' then 4
      else if c \<in> set ''Aa'' then 7
      else 0)"

definition implicit_cmd :: "char \<Rightarrow> char" where
  "implicit_cmd c = (if c = CHR ''M'' then CHR ''L'' else if c = CHR ''m'' then CHR ''l'' else c)"


section \<open>Facts about boxes and the clustering loops\<close>

lemma overlaps_sym: "overlaps a b p = overlaps b a p"
  by (auto simp: overlaps_def)

lemma overlaps_mono: "overlaps a b p \<Longrightarrow> inside a a' \<Longrightarrow> inside b b' \<Longrightarrow> overlaps a' b' p"
  by (auto simp: overlaps_def inside_def)

lemma inside_refl: "inside a a" by (simp add: inside_def)
lemma inside_trans: "inside a b \<Longrightarrow> inside b c \<Longrightarrow> inside a c" by (auto simp: inside_def)
lemma inside_antisym: "inside a b \<Longrightarrow> inside b a \<Longrightarrow> a = (b::BBox)" by (auto simp: inside_def)
lemma inside_union1: "inside a (bbox_union a b)" by (simp add: inside_def bbox_union_def)
lemma inside_union2: "inside b (bbox_union a b)" by (simp add: inside_def bbox_union_def)
lemma union_least: "inside a v \<Longrightarrow> inside b v \<Longrightarrow> inside (bbox_union a b) v"
  by (simp add: inside_def bbox_union_def)
lemma inside_overlaps: "0 \<le> p \<Longrightarrow> well_formed a \<Longrightarrow> inside a b \<Longrightarrow> overlaps a b p"
  by (auto simp: overlaps_def inside_def well_formed_def)
lemma well_formed_union: "well_formed a \<Longrightarrow> well_formed b \<Longrightarrow> well_formed (bbox_union a b)"
  by (auto simp: well_formed_def bbox_union_def)

lemma separated_sorted_wrt: "separated p cs = sorted_wrt (\<lambda>a b. \<not> overlaps a b p) cs"
  by (auto simp: separated_def sorted_wrt_iff_nth_less)

lemma merge_first_None_iff:
  "merge_first p b cs = None \<longleftrightarrow> (\<forall>c \<in> set cs. \<not> overlaps c b p)"
  by (induction cs) (auto split: option.splits)

lemma separated_snoc:
  "separated p (cs @ [b]) \<longleftrightarrow> separated p cs \<and> (\<forall>c \<in> set cs. \<not> overlaps c b p)"
  by (auto simp: separated_sorted_wrt sorted_wrt_append)

lemma separated_same:
  assumes "separated p vs" "u \<in> set vs" "v \<in> set vs" "overlaps u v p"
  shows "u = v"
proof -
  from assms(2,3) obtain i j where i: "i < length vs" "vs ! i = u" and j: "j < length vs" "vs ! j = v"
    by (auto simp: in_set_conv_nth)
  show ?thesis
  proof (rule ccontr)
    assume ne: "u \<noteq> v"
    with i j have "i \<noteq> j" by auto
    then consider "i < j" | "j < i" by linarith
    then show False
    proof cases
      case 1
      with assms(1) j i have "\<not> overlaps u v p" by (auto simp: separated_def)
      with assms(4) show False by simp
    next
      case 2
      with assms(1) j i have "\<not> overlaps v u p" by (auto simp: separated_def)
      with assms(4) show False by (simp add: overlaps_sym)
    qed
  qed
qed

lemma covers_merge_first:
  "merge_first p b cs = Some cs' \<Longrightarrow> covers (cs @ [b]) x \<Longrightarrow> covers cs' x"
proof (induction cs arbitrary: cs')
  case Nil then show ?case by simp
next
  case (Cons c cs)
  show ?case
  proof (cases "overlaps c b p")
    case True
    with Cons.prems(1) have cs': "cs' = bbox_union c b # cs" by simp
    from Cons.prems(2) show ?thesis unfolding cs' covers_def
      using inside_trans[OF _ inside_union1[of c b]] inside_trans[OF _ inside_union2[of b c]]
      by auto
  next
    case False
    with Cons.prems(1) obtain r where r: "merge_first p b cs = Some r" "cs' = c # r"
      by (auto split: option.splits)
    from Cons.prems(2) have "inside x c \<or> covers (cs @ [b]) x" by (auto simp: covers_def)
    then show ?thesis using Cons.IH[OF r(1)] r(2) by (auto simp: covers_def)
  qed
qed

lemma refines_merge_first:
  assumes "separated p vs"
  shows "merge_first p b cs = Some cs' \<Longrightarrow> refines (cs @ [b]) vs \<Longrightarrow> refines cs' vs"
proof (induction cs arbitrary: cs')
  case Nil then show ?case by simp
next
  case (Cons c cs)
  show ?case
  proof (cases "overlaps c b p")
    case True
    with Cons.prems(1) have cs': "cs' = bbox_union c b # cs" by simp
    from Cons.prems(2) obtain u v where u: "u \<in> set vs" "inside c u" and v: "v \<in> set vs" "inside b v"
      by (auto simp: refines_def covers_def)
    from overlaps_mono[OF True u(2) v(2)] have "u = v"
      using separated_same[OF assms u(1) v(1)] by simp
    with u v have "covers vs (bbox_union c b)" by (auto simp: covers_def intro: union_least)
    with Cons.prems(2) show ?thesis by (simp add: cs' refines_def)
  next
    case False
    with Cons.prems(1) obtain r where r: "merge_first p b cs = Some r" "cs' = c # r"
      by (auto split: option.splits)
    from Cons.prems(2) have "covers vs c" "refines (cs @ [b]) vs" by (auto simp: refines_def)
    then show ?thesis using Cons.IH[OF r(1)] r(2) by (auto simp: refines_def)
  qed
qed

lemma well_formed_merge_first:
  "merge_first p b cs = Some cs' \<Longrightarrow> \<forall>c \<in> set (cs @ [b]). well_formed c \<Longrightarrow> \<forall>c \<in> set cs'. well_formed c"
  by (induction cs arbitrary: cs') (auto split: if_splits option.splits intro: well_formed_union)


lemma covers_append: "covers (xs @ ys) x = (covers xs x \<or> covers ys x)"
  by (auto simp: covers_def)

lemma refines_append: "refines (xs @ ys) vs = (refines xs vs \<and> refines ys vs)"
  by (auto simp: refines_def)

lemma covers_greedy: "covers (clusters @ bs) x \<Longrightarrow> covers (greedy p clusters bs) x"
proof (induction bs arbitrary: clusters)
  case Nil then show ?case by simp
next
  case (Cons b bs)
  show ?case
  proof (cases "merge_first p b clusters")
    case None
    with Cons.IH[of "clusters @ [b]"] Cons.prems show ?thesis by simp
  next
    case (Some cs')
    from Cons.prems have "covers (clusters @ [b]) x \<or> covers bs x" by (auto simp: covers_def)
    then have "covers (cs' @ bs) x" using covers_merge_first[OF Some] by (auto simp: covers_append)
    with Cons.IH[of cs'] Some show ?thesis by simp
  qed
qed

lemma refines_greedy:
  assumes "separated p vs"
  shows "refines (clusters @ bs) vs \<Longrightarrow> refines (greedy p clusters bs) vs"
proof (induction bs arbitrary: clusters)
  case Nil then show ?case by simp
next
  case (Cons b bs)
  show ?case
  proof (cases "merge_first p b clusters")
    case None
    with Cons.IH[of "clusters @ [b]"] Cons.prems show ?thesis by simp
  next
    case (Some cs')
    from Cons.prems have "refines (clusters @ [b]) vs" "refines bs vs" by (auto simp: refines_def)
    then have "refines (cs' @ bs) vs" using refines_merge_first[OF assms Some] by (simp add: refines_append)
    with Cons.IH[of cs'] Some show ?thesis by simp
  qed
qed

lemma well_formed_greedy:
  "\<forall>c \<in> set (clusters @ bs). well_formed c \<Longrightarrow> \<forall>c \<in> set (greedy p clusters bs). well_formed c"
proof (induction bs arbitrary: clusters)
  case Nil then show ?case by simp
next
  case (Cons b bs)
  show ?case
  proof (cases "merge_first p b clusters")
    case None
    with Cons.IH[of "clusters @ [b]"] Cons.prems show ?thesis by simp
  next
    case (Some cs')
    from Cons.prems have "\<forall>c \<in> set (clusters @ [b]). well_formed c" by simp
    from well_formed_merge_first[OF Some this] Cons.prems
    have "\<forall>c \<in> set (cs' @ bs). well_formed c" by auto
    with Cons.IH[of cs'] Some show ?thesis by simp
  qed
qed

lemma covers_pass_loop:
  "pass_loop p out ch bs = (out', ch') \<Longrightarrow> covers (out @ bs) x \<Longrightarrow> covers out' x"
proof (induction bs arbitrary: out ch)
  case Nil then show ?case by simp
next
  case (Cons b bs)
  show ?case
  proof (cases "merge_first p b out")
    case None
    with Cons.IH[of "out @ [b]" ch] Cons.prems show ?thesis by simp
  next
    case (Some cs')
    from Cons.prems(2) have "covers (out @ [b]) x \<or> covers bs x" by (auto simp: covers_def)
    then have "covers (cs' @ bs) x" using covers_merge_first[OF Some] by (auto simp: covers_append)
    with Cons.IH[of cs' True] Some Cons.prems(1) show ?thesis by simp
  qed
qed

lemma refines_pass_loop:
  assumes "separated p vs"
  shows "pass_loop p out ch bs = (out', ch') \<Longrightarrow> refines (out @ bs) vs \<Longrightarrow> refines out' vs"
proof (induction bs arbitrary: out ch)
  case Nil then show ?case by simp
next
  case (Cons b bs)
  show ?case
  proof (cases "merge_first p b out")
    case None
    with Cons.IH[of "out @ [b]" ch] Cons.prems show ?thesis by simp
  next
    case (Some cs')
    from Cons.prems(2) have "refines (out @ [b]) vs" "refines bs vs" by (auto simp: refines_def)
    then have "refines (cs' @ bs) vs" using refines_merge_first[OF assms Some] by (simp add: refines_append)
    with Cons.IH[of cs' True] Some Cons.prems(1) show ?thesis by simp
  qed
qed

lemma well_formed_pass_loop:
  "pass_loop p out ch bs = (out', ch') \<Longrightarrow> \<forall>c \<in> set (out @ bs). well_formed c
     \<Longrightarrow> \<forall>c \<in> set out'. well_formed c"
proof (induction bs arbitrary: out ch)
  case Nil then show ?case by simp
next
  case (Cons b bs)
  show ?case
  proof (cases "merge_first p b out")
    case None
    with Cons.IH[of "out @ [b]" ch] Cons.prems show ?thesis by simp
  next
    case (Some cs')
    from Cons.prems(2) have "\<forall>c \<in> set (out @ [b]). well_formed c" by simp
    from well_formed_merge_first[OF Some this] Cons.prems(2)
    have "\<forall>c \<in> set (cs' @ bs). well_formed c" by auto
    with Cons.IH[of cs' True] Some Cons.prems(1) show ?thesis by simp
  qed
qed

lemma pass_loop_flag: "pass_loop p out True bs = (out', ch') \<Longrightarrow> ch'"
  by (induction bs arbitrary: out) (auto split: option.splits)

lemma pass_loop_stable:
  "pass_loop p out ch bs = (out', False) \<Longrightarrow> separated p out \<Longrightarrow>
     out' = out @ bs \<and> separated p out'"
proof (induction bs arbitrary: out)
  case Nil then show ?case by simp
next
  case (Cons b bs)
  show ?case
  proof (cases "merge_first p b out")
    case None
    then have "separated p (out @ [b])"
      using Cons.prems(2) by (simp add: separated_snoc merge_first_None_iff)
    moreover from Cons.prems(1) None have "pass_loop p (out @ [b]) ch bs = (out', False)" by simp
    ultimately have "out' = (out @ [b]) @ bs \<and> separated p out'" using Cons.IH by blast
    then show ?thesis by auto
  next
    case (Some cs')
    with Cons.prems(1) have "pass_loop p cs' True bs = (out', False)" by simp
    from pass_loop_flag[OF this] show ?thesis by simp
  qed
qed

lemma pass_stable: "pass p cs = (out, False) \<Longrightarrow> out = cs \<and> separated p cs"
  using pass_loop_stable[of p "[]" False cs out] by (auto simp: pass_def separated_def)

lemma stabilise_changed: "pass p cs = (out, True) \<Longrightarrow> stabilise p cs = stabilise p out"
  by (subst stabilise.simps) simp

lemma stabilise_stable: "pass p cs = (out, False) \<Longrightarrow> stabilise p cs = out"
  by (subst stabilise.simps) simp

lemma stabilise_rule:
  assumes "Q cs" and "\<And>cs out ch. Q cs \<Longrightarrow> pass p cs = (out, ch) \<Longrightarrow> Q out"
  shows "Q (stabilise p cs)"
  using assms
proof (induction p cs rule: stabilise.induct)
  case (1 p cs)
  obtain out ch where pc: "pass p cs = (out, ch)" by (cases "pass p cs")
  have Qout: "Q out" using "1.prems"(2)[OF "1.prems"(1) pc] .
  show ?case
  proof (cases ch)
    case True
    with pc have "stabilise p cs = stabilise p out" by (simp add: stabilise_changed)
    moreover have "Q (stabilise p out)"
      using "1.IH"[OF pc[symmetric] True Qout] "1.prems"(2) by blast
    ultimately show ?thesis by simp
  next
    case False
    with pc have "stabilise p cs = out" by (simp add: stabilise_stable)
    then show ?thesis using Qout by simp
  qed
qed

lemma separated_stabilise: "separated p (stabilise p cs)"
proof (induction p cs rule: stabilise.induct)
  case (1 p cs)
  obtain out ch where pc: "pass p cs = (out, ch)" by (cases "pass p cs")
  show ?case
  proof (cases ch)
    case True
    with pc have "stabilise p cs = stabilise p out" by (simp add: stabilise_changed)
    then show ?thesis using "1.IH"[OF pc[symmetric]] True by simp
  next
    case False
    with pc pass_stable[of p cs out] show ?thesis by (simp add: stabilise_stable)
  qed
qed


lemma greedy_length: "length (greedy p clusters bs) \<le> length clusters + length bs"
proof (induction bs arbitrary: clusters)
  case Nil then show ?case by simp
next
  case (Cons b bs)
  show ?case
  proof (cases "merge_first p b clusters")
    case None
    with Cons.IH[of "clusters @ [b]"] show ?thesis by simp
  next
    case (Some cs')
    with Cons.IH[of cs'] merge_first_length[OF Some] show ?thesis by simp
  qed
qed

lemma stabilise_fuel_enough:
  "length cs \<le> n \<Longrightarrow> stabilise_fuel (Suc n) p cs = Some (stabilise p cs)"
proof (induction n arbitrary: cs)
  case 0
  obtain out ch where pc: "pass p cs = (out, ch)" by (cases "pass p cs")
  show ?case
  proof (cases ch)
    case True
    with pc pass_changed_shorter[of p cs out] 0 show ?thesis by simp
  next
    case False
    with pc show ?thesis by (simp add: stabilise_stable)
  qed
next
  case (Suc n)
  obtain out ch where pc: "pass p cs = (out, ch)" by (cases "pass p cs")
  show ?case
  proof (cases ch)
    case True
    with pc pass_changed_shorter[of p cs out] Suc.prems have "length out \<le> n" by simp
    from Suc.IH[OF this] pc True show ?thesis by (simp add: stabilise_changed)
  next
    case False
    with pc show ?thesis by (simp add: stabilise_stable)
  qed
qed

lemma covers_cluster:
  assumes "x \<in> set xs" shows "covers (cluster_bboxes xs p) x"
  unfolding cluster_bboxes_def
proof (rule stabilise_rule)
  from assms have "covers ([] @ xs) x" by (auto simp: covers_def intro: inside_refl)
  then show "covers (greedy p [] xs) x" by (rule covers_greedy)
next
  fix cs out ch assume "covers cs x" "pass p cs = (out, ch)"
  then show "covers out x" using covers_pass_loop[of p "[]" False cs out ch x] by (simp add: pass_def)
qed

lemma refines_cluster:
  assumes "separated p vs" "refines xs vs" shows "refines (cluster_bboxes xs p) vs"
  unfolding cluster_bboxes_def
proof (rule stabilise_rule)
  from assms(2) have "refines ([] @ xs) vs" by simp
  then show "refines (greedy p [] xs) vs" by (rule refines_greedy[OF assms(1)])
next
  fix cs out ch assume "refines cs vs" "pass p cs = (out, ch)"
  then show "refines out vs" using refines_pass_loop[OF assms(1), of "[]" False cs out ch] by (simp add: pass_def)
qed

lemma well_formed_cluster:
  assumes "\<forall>b \<in> set xs. well_formed b" shows "\<forall>c \<in> set (cluster_bboxes xs p). well_formed c"
  unfolding cluster_bboxes_def
proof (rule stabilise_rule)
  from assms have "\<forall>b \<in> set ([] @ xs). well_formed b" by simp
  then show "\<forall>c \<in> set (greedy p [] xs). well_formed c" by (rule well_formed_greedy)
next
  fix cs out ch assume "\<forall>c \<in> set cs. well_formed c" "pass p cs = (out, ch)"
  then show "\<forall>c \<in> set out. well_formed c"
    using well_formed_pass_loop[of p "[]" False cs out ch] by (simp add: pass_def)
qed

lemma separated_cluster: "separated p (cluster_bboxes xs p)"
  unfolding cluster_bboxes_def by (rule separated_stabilise)

lemma cluster_subset:
  assumes p: "0 \<le> p" and wf: "\<forall>b \<in> set xs. well_formed b" and eq: "set xs = set ys"
  shows "set (cluster_bboxes xs p) \<subseteq> set (cluster_bboxes ys p)"
proof
  let ?O = "cluster_bboxes xs p" and ?O' = "cluster_bboxes ys p"
  fix c assume c: "c \<in> set ?O"
  have "refines ys ?O'" by (simp add: refines_def covers_cluster)
  with eq have "refines xs ?O'" by (simp add: refines_def)
  from refines_cluster[OF separated_cluster this] c
  obtain c' where c': "c' \<in> set ?O'" "inside c c'" by (auto simp: refines_def covers_def)
  have "refines xs ?O" by (simp add: refines_def covers_cluster)
  with eq have "refines ys ?O" by (simp add: refines_def)
  from refines_cluster[OF separated_cluster this] c'(1)
  obtain c'' where c'': "c'' \<in> set ?O" "inside c' c''" by (auto simp: refines_def covers_def)
  have "inside c c''" using c'(2) c''(2) by (rule inside_trans)
  moreover have "well_formed c" using well_formed_cluster[OF wf] c by blast
  ultimately have "overlaps c c'' p" using p by (simp add: inside_overlaps)
  with separated_same[OF separated_cluster c c''(1)] have "c = c''" by simp
  with c'(2) c''(2) have "c = c'" by (simp add: inside_antisym)
  with c'(1) show "c \<in> set ?O'" by simp
qed



section \<open>Worked examples of clustering\<close>

lemmas cluster_eval = cluster_bboxes_def stabilise.simps pass_def overlaps_def bbox_union_def

lemma cluster_example:
  "cluster_bboxes [\<lparr>minx = 0, miny = 0, maxx = 100, maxy = 50\<rparr>,
                   \<lparr>minx = 0, miny = 40, maxx = 90, maxy = 90\<rparr>,
                   \<lparr>minx = 500, miny = 0, maxx = 600, maxy = 60\<rparr>] 10
   = [\<lparr>minx = 0, miny = 0, maxx = 100, maxy = 90\<rparr>,
      \<lparr>minx = 500, miny = 0, maxx = 600, maxy = 60\<rparr>]"
  by (simp add: cluster_eval)

lemma cluster_example_shuffled:
  "cluster_bboxes [\<lparr>minx = 500, miny = 0, maxx = 600, maxy = 60\<rparr>,
                   \<lparr>minx = 0, miny = 40, maxx = 90, maxy = 90\<rparr>,
                   \<lparr>minx = 0, miny = 0, maxx = 100, maxy = 50\<rparr>] 10
   = [\<lparr>minx = 500, miny = 0, maxx = 600, maxy = 60\<rparr>,
      \<lparr>minx = 0, miny = 0, maxx = 100, maxy = 90\<rparr>]"
  by (simp add: cluster_eval)


section \<open>Properties of clustering\<close>

text \<open>
  C7. No two boxes at different positions of the output of \<open>cluster_bboxes\<close> pass the
  overlap test with pad equal to the proximity: on some axis the gap between them is
  strictly greater than the proximity. This holds for every input list and every
  proximity.
\<close>

theorem cluster_bboxes_separated:
  "\<forall>i j. i < j \<and> j < length (cluster_bboxes bboxes p) \<longrightarrow>
     \<not> overlaps (cluster_bboxes bboxes p ! i) (cluster_bboxes bboxes p ! j) p \<and>
     (p < minx (cluster_bboxes bboxes p ! j) - maxx (cluster_bboxes bboxes p ! i)
      \<or> p < minx (cluster_bboxes bboxes p ! i) - maxx (cluster_bboxes bboxes p ! j)
      \<or> p < miny (cluster_bboxes bboxes p ! j) - maxy (cluster_bboxes bboxes p ! i)
      \<or> p < miny (cluster_bboxes bboxes p ! i) - maxy (cluster_bboxes bboxes p ! j))"
proof (intro allI impI)
  fix i j assume ij: "i < j \<and> j < length (cluster_bboxes bboxes p)"
  let ?a = "cluster_bboxes bboxes p ! i" and ?b = "cluster_bboxes bboxes p ! j"
  from separated_cluster[of p bboxes] ij have no: "\<not> overlaps ?a ?b p"
    by (simp add: separated_def)
  then have "p < minx ?b - maxx ?a \<or> p < minx ?a - maxx ?b
      \<or> p < miny ?b - maxy ?a \<or> p < miny ?a - maxy ?b"
    by (auto simp: overlaps_def)
  with no show "\<not> overlaps ?a ?b p \<and> (p < minx ?b - maxx ?a \<or> p < minx ?a - maxx ?b
      \<or> p < miny ?b - maxy ?a \<or> p < miny ?a - maxy ?b)" by blast
qed

text \<open>C7 at the three boxes of the end-to-end scenario, proximity 10.\<close>

theorem cluster_bboxes_separated_witness:
  "(0::nat) < 1
   \<and> 1 < length (cluster_bboxes [\<lparr>minx = 0, miny = 0, maxx = 100, maxy = 50\<rparr>,
                   \<lparr>minx = 0, miny = 40, maxx = 90, maxy = 90\<rparr>,
                   \<lparr>minx = 500, miny = 0, maxx = 600, maxy = 60\<rparr>] 10)
   \<and> \<not> overlaps \<lparr>minx = 0, miny = 0, maxx = 100, maxy = 90\<rparr>
                 \<lparr>minx = 500, miny = 0, maxx = 600, maxy = 60\<rparr> 10"
proof -
  have "\<forall>i j. i < j \<and> j < length (cluster_bboxes [\<lparr>minx = 0, miny = 0, maxx = 100, maxy = 50\<rparr>,
                   \<lparr>minx = 0, miny = 40, maxx = 90, maxy = 90\<rparr>,
                   \<lparr>minx = 500, miny = 0, maxx = 600, maxy = 60\<rparr>] 10) \<longrightarrow>
     \<not> overlaps (cluster_bboxes [\<lparr>minx = 0, miny = 0, maxx = 100, maxy = 50\<rparr>,
                   \<lparr>minx = 0, miny = 40, maxx = 90, maxy = 90\<rparr>,
                   \<lparr>minx = 500, miny = 0, maxx = 600, maxy = 60\<rparr>] 10 ! i)
                 (cluster_bboxes [\<lparr>minx = 0, miny = 0, maxx = 100, maxy = 50\<rparr>,
                   \<lparr>minx = 0, miny = 40, maxx = 90, maxy = 90\<rparr>,
                   \<lparr>minx = 500, miny = 0, maxx = 600, maxy = 60\<rparr>] 10 ! j) 10"
    using cluster_bboxes_separated [of "[\<lparr>minx = 0, miny = 0, maxx = 100, maxy = 50\<rparr>,
                   \<lparr>minx = 0, miny = 40, maxx = 90, maxy = 90\<rparr>,
                   \<lparr>minx = 500, miny = 0, maxx = 600, maxy = 60\<rparr>]" 10] by blast
  then have "(0::nat) < 1 \<and> 1 < length (cluster_bboxes [\<lparr>minx = 0, miny = 0, maxx = 100, maxy = 50\<rparr>,
                   \<lparr>minx = 0, miny = 40, maxx = 90, maxy = 90\<rparr>,
                   \<lparr>minx = 500, miny = 0, maxx = 600, maxy = 60\<rparr>] 10) \<longrightarrow>
     \<not> overlaps (cluster_bboxes [\<lparr>minx = 0, miny = 0, maxx = 100, maxy = 50\<rparr>,
                   \<lparr>minx = 0, miny = 40, maxx = 90, maxy = 90\<rparr>,
                   \<lparr>minx = 500, miny = 0, maxx = 600, maxy = 60\<rparr>] 10 ! 0)
                 (cluster_bboxes [\<lparr>minx = 0, miny = 0, maxx = 100, maxy = 50\<rparr>,
                   \<lparr>minx = 0, miny = 40, maxx = 90, maxy = 90\<rparr>,
                   \<lparr>minx = 500, miny = 0, maxx = 600, maxy = 60\<rparr>] 10 ! 1) 10"
    by blast
  then show ?thesis by (simp add: cluster_example)
qed

text \<open>
  C10. The repeat-until-stable loop of \<open>cluster_bboxes\<close> finishes: a pass that merges
  (flag \<open>changed\<close> set) returns strictly fewer clusters than it was given, a pass that
  does not merge ends the loop with its output, and for an input of \<open>n\<close> boxes the loop
  has returned after at most \<open>n + 1\<close> passes.
\<close>

theorem cluster_bboxes_terminates:
  "(snd (pass p cs) \<longrightarrow> length (fst (pass p cs)) < length cs)
   \<and> (\<not> snd (pass p cs) \<longrightarrow> stabilise p cs = fst (pass p cs))
   \<and> stabilise_fuel (Suc (length bboxes)) p (greedy p [] bboxes) = Some (cluster_bboxes bboxes p)"
proof (intro conjI impI)
  assume "snd (pass p cs)"
  then have "pass p cs = (fst (pass p cs), True)" by (cases "pass p cs") simp
  then show "length (fst (pass p cs)) < length cs" by (rule pass_changed_shorter)
next
  assume "\<not> snd (pass p cs)"
  then have "pass p cs = (fst (pass p cs), False)" by (cases "pass p cs") simp
  then show "stabilise p cs = fst (pass p cs)" by (rule stabilise_stable)
next
  have "length (greedy p [] bboxes) \<le> length bboxes" using greedy_length[of p "[]" bboxes] by simp
  then show "stabilise_fuel (Suc (length bboxes)) p (greedy p [] bboxes) = Some (cluster_bboxes bboxes p)"
    unfolding cluster_bboxes_def by (rule stabilise_fuel_enough)
qed

text \<open>
  C10 at a list on which the first pass merges and the second does not, and at an input
  whose second phase needs two passes.
\<close>

theorem cluster_bboxes_terminates_witness:
  "snd (pass 0 [\<lparr>minx = 0, miny = 0, maxx = 5, maxy = 1\<rparr>, \<lparr>minx = 5, miny = 0, maxx = 6, maxy = 1\<rparr>])
   \<and> length (fst (pass 0 [\<lparr>minx = 0, miny = 0, maxx = 5, maxy = 1\<rparr>, \<lparr>minx = 5, miny = 0, maxx = 6, maxy = 1\<rparr>])) < 2
   \<and> \<not> snd (pass 0 [\<lparr>minx = 0, miny = 0, maxx = 6, maxy = 1\<rparr>])
   \<and> stabilise 0 [\<lparr>minx = 0, miny = 0, maxx = 6, maxy = 1\<rparr>] = [\<lparr>minx = 0, miny = 0, maxx = 6, maxy = 1\<rparr>]
   \<and> stabilise_fuel (Suc (Suc (Suc (Suc 0)))) 0 (greedy 0 [] [\<lparr>minx = 0, miny = 0, maxx = 1, maxy = 1\<rparr>,
         \<lparr>minx = 5, miny = 0, maxx = 6, maxy = 1\<rparr>, \<lparr>minx = 1, miny = 0, maxx = 5, maxy = 1\<rparr>])
       = Some [\<lparr>minx = 0, miny = 0, maxx = 6, maxy = 1\<rparr>]"
  using cluster_bboxes_terminates [of 0 "[\<lparr>minx = 0, miny = 0, maxx = 5, maxy = 1\<rparr>, \<lparr>minx = 5, miny = 0, maxx = 6, maxy = 1\<rparr>]"
          "[\<lparr>minx = 0, miny = 0, maxx = 1, maxy = 1\<rparr>,
         \<lparr>minx = 5, miny = 0, maxx = 6, maxy = 1\<rparr>, \<lparr>minx = 1, miny = 0, maxx = 5, maxy = 1\<rparr>]"]
        cluster_bboxes_terminates [of 0 "[\<lparr>minx = 0, miny = 0, maxx = 6, maxy = 1\<rparr>]" "[]"]
  by (simp add: cluster_eval)

text \<open>
  C4. Clustering does not depend on the order of the input: for a non-negative proximity
  and boxes that satisfy the invariant of the data model (\<open>minx \<le> maxx\<close>,
  \<open>miny \<le> maxy\<close>), any permutation of the input list gives the same set of output
  boxes.
\<close>

theorem cluster_bboxes_order_independent:
  assumes "0 \<le> p" and "\<forall>b \<in> set xs. well_formed b" and "mset xs = mset ys"
  shows "set (cluster_bboxes xs p) = set (cluster_bboxes ys p)"
proof -
  from assms(3) have eq: "set xs = set ys" by (rule mset_eq_setD)
  with assms(2) have wf': "\<forall>b \<in> set ys. well_formed b" by simp
  show ?thesis
    using cluster_subset[OF assms(1,2) eq] cluster_subset[OF assms(1) wf' eq[symmetric]] by blast
qed

text \<open>C4 at the three boxes of the end-to-end scenario and a permutation of them.\<close>

theorem cluster_bboxes_order_independent_witness:
  "(0::real) \<le> 10
   \<and> well_formed \<lparr>minx = 0, miny = 0, maxx = 100, maxy = 50\<rparr>
   \<and> well_formed \<lparr>minx = 0, miny = 40, maxx = 90, maxy = 90\<rparr>
   \<and> well_formed \<lparr>minx = 500, miny = 0, maxx = 600, maxy = 60\<rparr>
   \<and> mset [\<lparr>minx = 0, miny = 0, maxx = 100, maxy = 50\<rparr>,
            \<lparr>minx = 0, miny = 40, maxx = 90, maxy = 90\<rparr>,
            \<lparr>minx = 500, miny = 0, maxx = 600, maxy = 60\<rparr>]
     = mset [\<lparr>minx = 500, miny = 0, maxx = 600, maxy = 60\<rparr>,
            \<lparr>minx = 0, miny = 40, maxx = 90, maxy = 90\<rparr>,
            \<lparr>minx = 0, miny = 0, maxx = 100, maxy = 50\<rparr>]
   \<and> set (cluster_bboxes [\<lparr>minx = 0, miny = 0, maxx = 100, maxy = 50\<rparr>,
            \<lparr>minx = 0, miny = 40, maxx = 90, maxy = 90\<rparr>,
            \<lparr>minx = 500, miny = 0, maxx = 600, maxy = 60\<rparr>] 10)
     = set (cluster_bboxes [\<lparr>minx = 500, miny = 0, maxx = 600, maxy = 60\<rparr>,
            \<lparr>minx = 0, miny = 40, maxx = 90, maxy = 90\<rparr>,
            \<lparr>minx = 0, miny = 0, maxx = 100, maxy = 50\<rparr>] 10)"
proof -
  have wf: "\<forall>b \<in> set [\<lparr>minx = 0, miny = 0, maxx = 100, maxy = 50\<rparr>,
            \<lparr>minx = 0, miny = 40, maxx = 90, maxy = 90\<rparr>,
            \<lparr>minx = 500, miny = 0, maxx = 600, maxy = (60::real)\<rparr>]. well_formed b"
    by (simp add: well_formed_def)
  have ms: "mset [\<lparr>minx = 0, miny = 0, maxx = 100, maxy = 50\<rparr>,
            \<lparr>minx = 0, miny = 40, maxx = 90, maxy = 90\<rparr>,
            \<lparr>minx = 500, miny = 0, maxx = 600, maxy = (60::real)\<rparr>]
     = mset [\<lparr>minx = 500, miny = 0, maxx = 600, maxy = 60\<rparr>,
            \<lparr>minx = 0, miny = 40, maxx = 90, maxy = 90\<rparr>,
            \<lparr>minx = 0, miny = 0, maxx = 100, maxy = 50\<rparr>]"
    by (simp add: add_mset_commute)
  have p: "(0::real) \<le> 10" by simp
  from cluster_bboxes_order_independent [OF p wf ms] wf ms show ?thesis by simp
qed









section \<open>Rounding to an integer\<close>

lemma py_round_nearest: "\<bar>real_of_int (py_round v) - v\<bar> \<le> 1 / 2"
  unfolding py_round_def Let_def by (auto; linarith)

lemma py_round_of_int: "py_round (of_int n) = n"
  by (simp add: py_round_def)

section \<open>Selection of the top row\<close>

lemma py_index_iff: "py_index xs i = Inl IndexError \<longleftrightarrow> length xs \<le> i"
  by (auto simp: py_index_def)

text \<open>
  C2. The selection of \<^verbatim>\<open>main\<close> asks for three targets. When fewer than three
  clusters pass the size filter it fails, with the \<^verbatim>\<open>IndexError\<close> of reading a
  missing position, and it succeeds only with three targets, never with a shorter list.
\<close>

theorem main_select_insufficient:
  "(length (filter plausible clusters) < 3 \<longrightarrow> main_select clusters = Inl IndexError)
   \<and> (3 \<le> length (filter plausible clusters) \<longrightarrow> (\<exists>a b c. main_select clusters = Inr (a, b, c)))"
proof -
  let ?top = "sort_key bbox_cx (take 3 (sort_key bbox_cy (filter plausible clusters)))"
  have len: "length ?top = min 3 (length (filter plausible clusters))"
    by (simp add: min.commute)
  have ms: "main_select clusters =
      (case py_index ?top 0 of Inl e \<Rightarrow> Inl e
       | Inr ake \<Rightarrow> (case py_index ?top 1 of Inl e \<Rightarrow> Inl e
          | Inr akh \<Rightarrow> (case py_index ?top 2 of Inl e \<Rightarrow> Inl e | Inr ld9 \<Rightarrow> Inr (ake, akh, ld9))))"
    by (simp add: main_select_def Let_def)
  show ?thesis
  proof (intro conjI impI)
    assume "length (filter plausible clusters) < 3"
    with len have "length ?top < 3" by simp
    then show "main_select clusters = Inl IndexError"
      unfolding ms py_index_def by (auto split: sum.splits)
  next
    assume "3 \<le> length (filter plausible clusters)"
    with len have "length ?top = 3" by simp
    then show "\<exists>a b c. main_select clusters = Inr (a, b, c)"
      unfolding ms py_index_def by simp
  qed
qed

text \<open>
  C2 at three clusters of which two pass the filter, and at four clusters that all pass.
\<close>

theorem main_select_insufficient_witness:
  "length (filter plausible [\<lparr>minx = 0, miny = 0, maxx = 100, maxy = 90\<rparr>,
                            \<lparr>minx = 300, miny = 0, maxx = 310, maxy = 10\<rparr>,
                            \<lparr>minx = 500, miny = 0, maxx = 600, maxy = 70\<rparr>]) < 3
   \<and> main_select [\<lparr>minx = 0, miny = 0, maxx = 100, maxy = 90\<rparr>,
                   \<lparr>minx = 300, miny = 0, maxx = 310, maxy = 10\<rparr>,
                   \<lparr>minx = 500, miny = 0, maxx = 600, maxy = 70\<rparr>] = Inl IndexError
   \<and> 3 \<le> length (filter plausible [\<lparr>minx = 0, miny = 100, maxx = 100, maxy = 190\<rparr>,
                            \<lparr>minx = 600, miny = 0, maxx = 700, maxy = 70\<rparr>,
                            \<lparr>minx = 300, miny = 0, maxx = 400, maxy = 80\<rparr>,
                            \<lparr>minx = 0, miny = 0, maxx = 100, maxy = 90\<rparr>])
   \<and> main_select [\<lparr>minx = 0, miny = 100, maxx = 100, maxy = 190\<rparr>,
                            \<lparr>minx = 600, miny = 0, maxx = 700, maxy = 70\<rparr>,
                            \<lparr>minx = 300, miny = 0, maxx = 400, maxy = 80\<rparr>,
                            \<lparr>minx = 0, miny = 0, maxx = 100, maxy = 90\<rparr>]
       = Inr (\<lparr>minx = 0, miny = 0, maxx = 100, maxy = 90\<rparr>,
              \<lparr>minx = 300, miny = 0, maxx = 400, maxy = 80\<rparr>,
              \<lparr>minx = 600, miny = 0, maxx = 700, maxy = 70\<rparr>)"
  using main_select_insufficient [of "[\<lparr>minx = 0, miny = 0, maxx = 100, maxy = 90\<rparr>,
                            \<lparr>minx = 300, miny = 0, maxx = 310, maxy = 10\<rparr>,
                            \<lparr>minx = 500, miny = 0, maxx = 600, maxy = 70\<rparr>]"]
  by (simp add: plausible_def bbox_w_def bbox_h_def bbox_cx_def bbox_cy_def main_select_def py_index_def)



section \<open>The path interpreter: implicit repetition\<close>

lemma take_numbers_map:
  "take_numbers (map Number nums @ T) (length nums) = Inr (nums, T)"
  by (induction nums) simp_all

lemma with_numbers_exact:
  "length nums = n \<Longrightarrow> with_numbers n (map Number nums @ T) f = Inr (Some (f nums, T))"
  using take_numbers_map[of nums T] by (auto simp: with_numbers_def)

lemma ex_state:
  "cmd x = Some k \<Longrightarrow>
     \<exists>s'. cmd s' = Some k \<and> (\<forall>T. (Inr (Some (x, T)) :: outcome) = Inr (Some (s', T)))"
  by blast

lemma group_Mm:
  assumes "cmd s = Some c" and "c \<in> set ''Mm''" and "length nums = 2"
  shows "\<exists>s'. cmd s' = Some (implicit_cmd c)
           \<and> (\<forall>T. step s (map Number nums @ T) = Inr (Some (s', T)))"
proof -
  from assms(3) obtain a nums' where nums: "nums = a # nums'" by (cases nums) auto
  have st: "step s (map Number nums @ T) = cmd_Mm c s (map Number nums @ T)" for T
  proof -
    from assms(2) consider "c = CHR ''M''" | "c = CHR ''m''" by auto
    then show ?thesis
      by cases (simp_all add: nums step_def assms(1))
  qed
  show ?thesis
    unfolding st cmd_Mm_def with_numbers_exact[OF assms(3)]
    by (rule ex_state) (use assms(1,2) in \<open>auto simp: Let_def implicit_cmd_def\<close>)
qed

lemma group_Ll:
  assumes "cmd s = Some c" and "c \<in> set ''Ll''" and "length nums = 2"
  shows "\<exists>s'. cmd s' = Some (implicit_cmd c)
           \<and> (\<forall>T. step s (map Number nums @ T) = Inr (Some (s', T)))"
proof -
  from assms(3) obtain a nums' where nums: "nums = a # nums'" by (cases nums) auto
  have st: "step s (map Number nums @ T) = cmd_Ll c s (map Number nums @ T)" for T
  proof -
    from assms(2) consider "c = CHR ''L''" | "c = CHR ''l''" by auto
    then show ?thesis
      by cases (simp_all add: nums step_def assms(1))
  qed
  show ?thesis
    unfolding st cmd_Ll_def with_numbers_exact[OF assms(3)]
    by (rule ex_state) (use assms(1,2) in \<open>auto simp: Let_def implicit_cmd_def\<close>)
qed

lemma group_Hh:
  assumes "cmd s = Some c" and "c \<in> set ''Hh''" and "length nums = 1"
  shows "\<exists>s'. cmd s' = Some (implicit_cmd c)
           \<and> (\<forall>T. step s (map Number nums @ T) = Inr (Some (s', T)))"
proof -
  from assms(3) obtain a nums' where nums: "nums = a # nums'" by (cases nums) auto
  have st: "step s (map Number nums @ T) = cmd_Hh c s (map Number nums @ T)" for T
  proof -
    from assms(2) consider "c = CHR ''H''" | "c = CHR ''h''" by auto
    then show ?thesis
      by cases (simp_all add: nums step_def assms(1))
  qed
  show ?thesis
    unfolding st cmd_Hh_def with_numbers_exact[OF assms(3)]
    by (rule ex_state) (use assms(1,2) in \<open>auto simp: Let_def implicit_cmd_def\<close>)
qed

lemma group_Vv:
  assumes "cmd s = Some c" and "c \<in> set ''Vv''" and "length nums = 1"
  shows "\<exists>s'. cmd s' = Some (implicit_cmd c)
           \<and> (\<forall>T. step s (map Number nums @ T) = Inr (Some (s', T)))"
proof -
  from assms(3) obtain a nums' where nums: "nums = a # nums'" by (cases nums) auto
  have st: "step s (map Number nums @ T) = cmd_Vv c s (map Number nums @ T)" for T
  proof -
    from assms(2) consider "c = CHR ''V''" | "c = CHR ''v''" by auto
    then show ?thesis
      by cases (simp_all add: nums step_def assms(1))
  qed
  show ?thesis
    unfolding st cmd_Vv_def with_numbers_exact[OF assms(3)]
    by (rule ex_state) (use assms(1,2) in \<open>auto simp: Let_def implicit_cmd_def\<close>)
qed

lemma group_Cc:
  assumes "cmd s = Some c" and "c \<in> set ''Cc''" and "length nums = 6"
  shows "\<exists>s'. cmd s' = Some (implicit_cmd c)
           \<and> (\<forall>T. step s (map Number nums @ T) = Inr (Some (s', T)))"
proof -
  from assms(3) obtain a nums' where nums: "nums = a # nums'" by (cases nums) auto
  have st: "step s (map Number nums @ T) = cmd_Cc c s (map Number nums @ T)" for T
  proof -
    from assms(2) consider "c = CHR ''C''" | "c = CHR ''c''" by auto
    then show ?thesis
      by cases (simp_all add: nums step_def assms(1))
  qed
  show ?thesis
    unfolding st cmd_Cc_def with_numbers_exact[OF assms(3)]
    by (rule ex_state) (use assms(1,2) in \<open>auto simp: Let_def implicit_cmd_def\<close>)
qed

lemma group_Ss:
  assumes "cmd s = Some c" and "c \<in> set ''Ss''" and "length nums = 4"
  shows "\<exists>s'. cmd s' = Some (implicit_cmd c)
           \<and> (\<forall>T. step s (map Number nums @ T) = Inr (Some (s', T)))"
proof -
  from assms(3) obtain a nums' where nums: "nums = a # nums'" by (cases nums) auto
  have st: "step s (map Number nums @ T) = cmd_Ss c s (map Number nums @ T)" for T
  proof -
    from assms(2) consider "c = CHR ''S''" | "c = CHR ''s''" by auto
    then show ?thesis
      by cases (simp_all add: nums step_def assms(1))
  qed
  show ?thesis
    unfolding st cmd_Ss_def with_numbers_exact[OF assms(3)]
    by (rule ex_state) (use assms(1,2) in \<open>auto simp: Let_def implicit_cmd_def\<close>)
qed

lemma group_Qq:
  assumes "cmd s = Some c" and "c \<in> set ''Qq''" and "length nums = 4"
  shows "\<exists>s'. cmd s' = Some (implicit_cmd c)
           \<and> (\<forall>T. step s (map Number nums @ T) = Inr (Some (s', T)))"
proof -
  from assms(3) obtain a nums' where nums: "nums = a # nums'" by (cases nums) auto
  have st: "step s (map Number nums @ T) = cmd_Qq c s (map Number nums @ T)" for T
  proof -
    from assms(2) consider "c = CHR ''Q''" | "c = CHR ''q''" by auto
    then show ?thesis
      by cases (simp_all add: nums step_def assms(1))
  qed
  show ?thesis
    unfolding st cmd_Qq_def with_numbers_exact[OF assms(3)]
    by (rule ex_state) (use assms(1,2) in \<open>auto simp: Let_def implicit_cmd_def\<close>)
qed

lemma group_Tt:
  assumes "cmd s = Some c" and "c \<in> set ''Tt''" and "length nums = 2"
  shows "\<exists>s'. cmd s' = Some (implicit_cmd c)
           \<and> (\<forall>T. step s (map Number nums @ T) = Inr (Some (s', T)))"
proof -
  from assms(3) obtain a nums' where nums: "nums = a # nums'" by (cases nums) auto
  have st: "step s (map Number nums @ T) = cmd_Tt c s (map Number nums @ T)" for T
  proof -
    from assms(2) consider "c = CHR ''T''" | "c = CHR ''t''" by auto
    then show ?thesis
      by cases (simp_all add: nums step_def assms(1))
  qed
  show ?thesis
    unfolding st cmd_Tt_def with_numbers_exact[OF assms(3)]
    by (rule ex_state) (use assms(1,2) in \<open>auto simp: Let_def implicit_cmd_def\<close>)
qed

lemma group_Aa:
  assumes "cmd s = Some c" and "c \<in> set ''Aa''" and "length nums = 7"
  shows "\<exists>s'. cmd s' = Some (implicit_cmd c)
           \<and> (\<forall>T. step s (map Number nums @ T) = Inr (Some (s', T)))"
proof -
  from assms(3) obtain a nums' where nums: "nums = a # nums'" by (cases nums) auto
  have st: "step s (map Number nums @ T) = cmd_Aa c s (map Number nums @ T)" for T
  proof -
    from assms(2) consider "c = CHR ''A''" | "c = CHR ''a''" by auto
    then show ?thesis
      by cases (simp_all add: nums step_def assms(1))
  qed
  show ?thesis
    unfolding st cmd_Aa_def with_numbers_exact[OF assms(3)]
    by (rule ex_state) (use assms(1,2) in \<open>auto simp: Let_def implicit_cmd_def\<close>)
qed

lemma arity_zero: "c \<notin> set ''MmLlHhVvCcSsQqTtAa'' \<Longrightarrow> cmd_arity c = 0"
  by (simp add: cmd_arity_def)

lemma arity_letters:
  "cmd_arity CHR ''M'' = 2"
  "cmd_arity CHR ''m'' = 2"
  "cmd_arity CHR ''L'' = 2"
  "cmd_arity CHR ''l'' = 2"
  "cmd_arity CHR ''H'' = 1"
  "cmd_arity CHR ''h'' = 1"
  "cmd_arity CHR ''V'' = 1"
  "cmd_arity CHR ''v'' = 1"
  "cmd_arity CHR ''C'' = 6"
  "cmd_arity CHR ''c'' = 6"
  "cmd_arity CHR ''S'' = 4"
  "cmd_arity CHR ''s'' = 4"
  "cmd_arity CHR ''Q'' = 4"
  "cmd_arity CHR ''q'' = 4"
  "cmd_arity CHR ''T'' = 2"
  "cmd_arity CHR ''t'' = 2"
  "cmd_arity CHR ''A'' = 7"
  "cmd_arity CHR ''a'' = 7"
  by (simp_all add: cmd_arity_def)

lemma group_step:
  assumes "cmd s = Some c" and "0 < cmd_arity c" and "length nums = cmd_arity c"
  shows "\<exists>s'. cmd s' = Some (implicit_cmd c)
           \<and> (\<forall>T. step s (map Number nums @ T) = Inr (Some (s', T)))"
proof -
  from assms(2) arity_zero[of c] have "c \<in> set ''MmLlHhVvCcSsQqTtAa''"
    by (cases "c \<in> set ''MmLlHhVvCcSsQqTtAa''") simp_all
  then have "c = CHR ''M'' \<or> c = CHR ''m'' \<or> c = CHR ''L'' \<or> c = CHR ''l'' \<or> c = CHR ''H'' \<or> c = CHR ''h'' \<or> c = CHR ''V'' \<or> c = CHR ''v'' \<or> c = CHR ''C'' \<or> c = CHR ''c'' \<or> c = CHR ''S'' \<or> c = CHR ''s'' \<or> c = CHR ''Q'' \<or> c = CHR ''q'' \<or> c = CHR ''T'' \<or> c = CHR ''t'' \<or> c = CHR ''A'' \<or> c = CHR ''a''"
    by simp
  then show ?thesis
  proof (elim disjE)
    assume c: "c = CHR ''M''"
    with assms(3) have len: "length nums = 2" by (simp add: arity_letters)
    from c have "c \<in> set ''Mm''" by simp
    from group_Mm[OF assms(1) this len] show ?thesis .
  next
    assume c: "c = CHR ''m''"
    with assms(3) have len: "length nums = 2" by (simp add: arity_letters)
    from c have "c \<in> set ''Mm''" by simp
    from group_Mm[OF assms(1) this len] show ?thesis .
  next
    assume c: "c = CHR ''L''"
    with assms(3) have len: "length nums = 2" by (simp add: arity_letters)
    from c have "c \<in> set ''Ll''" by simp
    from group_Ll[OF assms(1) this len] show ?thesis .
  next
    assume c: "c = CHR ''l''"
    with assms(3) have len: "length nums = 2" by (simp add: arity_letters)
    from c have "c \<in> set ''Ll''" by simp
    from group_Ll[OF assms(1) this len] show ?thesis .
  next
    assume c: "c = CHR ''H''"
    with assms(3) have len: "length nums = 1" by (simp add: arity_letters)
    from c have "c \<in> set ''Hh''" by simp
    from group_Hh[OF assms(1) this len] show ?thesis .
  next
    assume c: "c = CHR ''h''"
    with assms(3) have len: "length nums = 1" by (simp add: arity_letters)
    from c have "c \<in> set ''Hh''" by simp
    from group_Hh[OF assms(1) this len] show ?thesis .
  next
    assume c: "c = CHR ''V''"
    with assms(3) have len: "length nums = 1" by (simp add: arity_letters)
    from c have "c \<in> set ''Vv''" by simp
    from group_Vv[OF assms(1) this len] show ?thesis .
  next
    assume c: "c = CHR ''v''"
    with assms(3) have len: "length nums = 1" by (simp add: arity_letters)
    from c have "c \<in> set ''Vv''" by simp
    from group_Vv[OF assms(1) this len] show ?thesis .
  next
    assume c: "c = CHR ''C''"
    with assms(3) have len: "length nums = 6" by (simp add: arity_letters)
    from c have "c \<in> set ''Cc''" by simp
    from group_Cc[OF assms(1) this len] show ?thesis .
  next
    assume c: "c = CHR ''c''"
    with assms(3) have len: "length nums = 6" by (simp add: arity_letters)
    from c have "c \<in> set ''Cc''" by simp
    from group_Cc[OF assms(1) this len] show ?thesis .
  next
    assume c: "c = CHR ''S''"
    with assms(3) have len: "length nums = 4" by (simp add: arity_letters)
    from c have "c \<in> set ''Ss''" by simp
    from group_Ss[OF assms(1) this len] show ?thesis .
  next
    assume c: "c = CHR ''s''"
    with assms(3) have len: "length nums = 4" by (simp add: arity_letters)
    from c have "c \<in> set ''Ss''" by simp
    from group_Ss[OF assms(1) this len] show ?thesis .
  next
    assume c: "c = CHR ''Q''"
    with assms(3) have len: "length nums = 4" by (simp add: arity_letters)
    from c have "c \<in> set ''Qq''" by simp
    from group_Qq[OF assms(1) this len] show ?thesis .
  next
    assume c: "c = CHR ''q''"
    with assms(3) have len: "length nums = 4" by (simp add: arity_letters)
    from c have "c \<in> set ''Qq''" by simp
    from group_Qq[OF assms(1) this len] show ?thesis .
  next
    assume c: "c = CHR ''T''"
    with assms(3) have len: "length nums = 2" by (simp add: arity_letters)
    from c have "c \<in> set ''Tt''" by simp
    from group_Tt[OF assms(1) this len] show ?thesis .
  next
    assume c: "c = CHR ''t''"
    with assms(3) have len: "length nums = 2" by (simp add: arity_letters)
    from c have "c \<in> set ''Tt''" by simp
    from group_Tt[OF assms(1) this len] show ?thesis .
  next
    assume c: "c = CHR ''A''"
    with assms(3) have len: "length nums = 7" by (simp add: arity_letters)
    from c have "c \<in> set ''Aa''" by simp
    from group_Aa[OF assms(1) this len] show ?thesis .
  next
    assume c: "c = CHR ''a''"
    with assms(3) have len: "length nums = 7" by (simp add: arity_letters)
    from c have "c \<in> set ''Aa''" by simp
    from group_Aa[OF assms(1) this len] show ?thesis .
  qed
qed


lemma arity_Z: "cmd_arity CHR ''Z'' = 0" "cmd_arity CHR ''z'' = 0"
  by (simp_all add: cmd_arity_def)

lemma implicit_not_Z:
  assumes "0 < cmd_arity c"
  shows "implicit_cmd c \<notin> set ''Zz''" and "c \<notin> set ''Zz''"
proof -
  from assms arity_Z show c: "c \<notin> set ''Zz''" by auto
  then show "implicit_cmd c \<notin> set ''Zz''" by (simp add: implicit_cmd_def)
qed

lemma step_letter:
  "c \<notin> set ''Zz'' \<Longrightarrow> step s (Letter c # toks) = Inr (Some (s\<lparr>cmd := Some c\<rparr>, toks))"
  by (simp add: step_def)

lemma interp_group:
  assumes "0 < cmd_arity c" and "length nums = cmd_arity c"
  shows "\<exists>s'. cmd s' = Some (implicit_cmd c)
           \<and> (\<forall>T. interp s (Letter c # map Number nums @ T) = interp s' T)"
proof -
  have "cmd (s\<lparr>cmd := Some c\<rparr>) = Some c" by simp
  from group_step[OF this assms] obtain s' where
    s': "cmd s' = Some (implicit_cmd c)"
    "\<And>T. step (s\<lparr>cmd := Some c\<rparr>) (map Number nums @ T) = Inr (Some (s', T))" by blast
  from assms obtain a nums' where nums: "nums = a # nums'" by (cases nums) auto
  have "interp s (Letter c # map Number nums @ T) = interp s' T" for T
  proof -
    have "interp s (Letter c # map Number nums @ T) = interp (s\<lparr>cmd := Some c\<rparr>) (map Number nums @ T)"
      using implicit_not_Z(2)[OF assms(1)] by (simp add: step_letter)
    also have "\<dots> = interp s' T"
      using s'(2)[of T] by (simp add: nums)
    finally show ?thesis .
  qed
  with s'(1) show ?thesis by blast
qed

lemma interp_explicit_letter:
  assumes "cmd s = Some c" and "c \<notin> set ''Zz''"
  shows "interp s (Letter c # toks) = interp s toks"
proof -
  from assms(1) have "s\<lparr>cmd := Some c\<rparr> = s" by simp
  with assms(2) show ?thesis by (simp add: step_letter)
qed

lemma implicit_repeat_interp:
  assumes "0 < cmd_arity c" and "length nums = cmd_arity c"
  shows "interp s (Letter c # map Number nums @ Number v # rest)
       = interp s (Letter c # map Number nums @ Letter (implicit_cmd c) # Number v # rest)"
proof -
  from interp_group[OF assms] obtain s' where
    s': "cmd s' = Some (implicit_cmd c)"
    "\<And>T. interp s (Letter c # map Number nums @ T) = interp s' T" by blast
  show ?thesis
    unfolding s'(2) using interp_explicit_letter[OF s'(1) implicit_not_Z(1)[OF assms(1)]] by simp
qed

lemma take_numbers_append:
  "take_numbers (pre @ Letter c # A) n =
     (case take_numbers pre n of
        Inl e \<Rightarrow> Inl e
      | Inr (nums, r) \<Rightarrow> if length nums < n then Inl ValueError else Inr (nums, r @ Letter c # A))"
  by (induction pre n rule: take_numbers.induct) (auto split: sum.splits)

lemma with_numbers_append_cases:
  assumes "0 < n"
  shows "(\<exists>e. \<forall>A. with_numbers n (Number v # pre @ Letter c # A) f = Inl e)
       \<or> (\<exists>s' r. length r \<le> length pre
              \<and> (\<forall>A. with_numbers n (Number v # pre @ Letter c # A) f = Inr (Some (s', r @ Letter c # A))))"
proof (cases "take_numbers (Number v # pre) n")
  case (Inl e)
  then have "\<forall>A. with_numbers n (Number v # pre @ Letter c # A) f = Inl e"
    using take_numbers_append[of "Number v # pre" c _ n] by (simp add: with_numbers_def)
  then show ?thesis by blast
next
  case (Inr p)
  obtain nums r where p: "p = (nums, r)" by (cases p)
  show ?thesis
  proof (cases "length nums < n")
    case True
    with Inr p have "\<forall>A. with_numbers n (Number v # pre @ Letter c # A) f = Inl ValueError"
      using take_numbers_append[of "Number v # pre" c _ n] by (simp add: with_numbers_def)
    then show ?thesis by blast
  next
    case False
    with Inr p have "\<forall>A. with_numbers n (Number v # pre @ Letter c # A) f = Inr (Some (f nums, r @ Letter c # A))"
      using take_numbers_append[of "Number v # pre" c _ n] by (simp add: with_numbers_def)
    moreover from take_numbers_length[of "Number v # pre" n nums r] Inr p False assms
    have "length r \<le> length pre" by simp
    ultimately show ?thesis by blast
  qed
qed

lemma numberedI:
  "0 < n \<Longrightarrow> \<exists>m g. 0 < m \<and> (\<forall>toks. with_numbers n toks f = with_numbers m toks g)"
  by blast

lemma numbered_cmds:
  "\<exists>n f. 0 < n \<and> (\<forall>toks. cmd_Mm d s toks = with_numbers n toks f)"
  "\<exists>n f. 0 < n \<and> (\<forall>toks. cmd_Ll d s toks = with_numbers n toks f)"
  "\<exists>n f. 0 < n \<and> (\<forall>toks. cmd_Hh d s toks = with_numbers n toks f)"
  "\<exists>n f. 0 < n \<and> (\<forall>toks. cmd_Vv d s toks = with_numbers n toks f)"
  "\<exists>n f. 0 < n \<and> (\<forall>toks. cmd_Cc d s toks = with_numbers n toks f)"
  "\<exists>n f. 0 < n \<and> (\<forall>toks. cmd_Ss d s toks = with_numbers n toks f)"
  "\<exists>n f. 0 < n \<and> (\<forall>toks. cmd_Qq d s toks = with_numbers n toks f)"
  "\<exists>n f. 0 < n \<and> (\<forall>toks. cmd_Tt d s toks = with_numbers n toks f)"
  "\<exists>n f. 0 < n \<and> (\<forall>toks. cmd_Aa d s toks = with_numbers n toks f)"
  unfolding cmd_defs by (rule numberedI, simp)+


lemma dispatchI:
  assumes "\<exists>n f. 0 < n \<and> (\<forall>toks. g toks = with_numbers n toks f)"
    and "\<forall>v ts. step s (Number v # ts) = g (Number v # ts)"
  shows "(\<exists>n f. 0 < n \<and> (\<forall>v ts. step s (Number v # ts) = with_numbers n (Number v # ts) f)) \<or> Q"
proof -
  from assms(1) obtain n f where nf: "0 < n" "\<And>toks. g toks = with_numbers n toks f" by blast
  from assms(2) nf(2) have "\<forall>v ts. step s (Number v # ts) = with_numbers n (Number v # ts) f" by simp
  with nf(1) show ?thesis by blast
qed

lemma step_dispatch:
  assumes "cmd s = Some d"
  shows "(\<exists>n f. 0 < n \<and> (\<forall>v ts. step s (Number v # ts) = with_numbers n (Number v # ts) f))
       \<or> (\<forall>v ts. step s (Number v # ts) = Inr (Some (s, ts)))"
proof (cases "d \<in> set ''Mm''")
  case True
  have "\<forall>v ts. step s (Number v # ts) = cmd_Mm d s (Number v # ts)"
    using assms True  by (simp add: step_def)
  with numbered_cmds(1)[of d s] show ?thesis by (rule dispatchI)
next
  case n0: False
  show ?thesis
  proof (cases "d \<in> set ''Ll''")
    case True
    have "\<forall>v ts. step s (Number v # ts) = cmd_Ll d s (Number v # ts)"
      using assms True n0 by (simp add: step_def)
    with numbered_cmds(2)[of d s] show ?thesis by (rule dispatchI)
  next
    case n1: False
    show ?thesis
    proof (cases "d \<in> set ''Hh''")
      case True
      have "\<forall>v ts. step s (Number v # ts) = cmd_Hh d s (Number v # ts)"
        using assms True n0 n1 by (simp add: step_def)
      with numbered_cmds(3)[of d s] show ?thesis by (rule dispatchI)
    next
      case n2: False
      show ?thesis
      proof (cases "d \<in> set ''Vv''")
        case True
        have "\<forall>v ts. step s (Number v # ts) = cmd_Vv d s (Number v # ts)"
          using assms True n0 n1 n2 by (simp add: step_def)
        with numbered_cmds(4)[of d s] show ?thesis by (rule dispatchI)
      next
        case n3: False
        show ?thesis
        proof (cases "d \<in> set ''Cc''")
          case True
          have "\<forall>v ts. step s (Number v # ts) = cmd_Cc d s (Number v # ts)"
            using assms True n0 n1 n2 n3 by (simp add: step_def)
          with numbered_cmds(5)[of d s] show ?thesis by (rule dispatchI)
        next
          case n4: False
          show ?thesis
          proof (cases "d \<in> set ''Ss''")
            case True
            have "\<forall>v ts. step s (Number v # ts) = cmd_Ss d s (Number v # ts)"
              using assms True n0 n1 n2 n3 n4 by (simp add: step_def)
            with numbered_cmds(6)[of d s] show ?thesis by (rule dispatchI)
          next
            case n5: False
            show ?thesis
            proof (cases "d \<in> set ''Qq''")
              case True
              have "\<forall>v ts. step s (Number v # ts) = cmd_Qq d s (Number v # ts)"
                using assms True n0 n1 n2 n3 n4 n5 by (simp add: step_def)
              with numbered_cmds(7)[of d s] show ?thesis by (rule dispatchI)
            next
              case n6: False
              show ?thesis
              proof (cases "d \<in> set ''Tt''")
                case True
                have "\<forall>v ts. step s (Number v # ts) = cmd_Tt d s (Number v # ts)"
                  using assms True n0 n1 n2 n3 n4 n5 n6 by (simp add: step_def)
                with numbered_cmds(8)[of d s] show ?thesis by (rule dispatchI)
              next
                case n7: False
                show ?thesis
                proof (cases "d \<in> set ''Aa''")
                  case True
                  have "\<forall>v ts. step s (Number v # ts) = cmd_Aa d s (Number v # ts)"
                    using assms True n0 n1 n2 n3 n4 n5 n6 n7 by (simp add: step_def)
                  with numbered_cmds(9)[of d s] show ?thesis by (rule dispatchI)
                next
                  case n8: False
                  have "\<forall>v ts. step s (Number v # ts) = Inr (Some (s, ts))"
                    using assms n0 n1 n2 n3 n4 n5 n6 n7 n8 by (simp add: step_def)
                  then show ?thesis by blast
                qed
              qed
            qed
          qed
        qed
      qed
    qed
  qed
qed


lemma step_append:
  "(\<exists>e. \<forall>A. step s (t # pre @ Letter c # A) = Inl e)
   \<or> (\<forall>A. step s (t # pre @ Letter c # A) = Inr None)
   \<or> (\<exists>s' r. length r \<le> length pre
          \<and> (\<forall>A. step s (t # pre @ Letter c # A) = Inr (Some (s', r @ Letter c # A))))"
proof (cases t)
  case (Letter d)
  have "\<exists>s'. \<forall>A. step s (t # pre @ Letter c # A) = Inr (Some (s', pre @ Letter c # A))"
    unfolding Letter by (cases "d \<in> set ''Zz''") (simp_all add: step_def)
  then show ?thesis by blast
next
  case (Number v)
  show ?thesis
  proof (cases "cmd s")
    case None
    then have "\<forall>A. step s (t # pre @ Letter c # A) = Inr None" by (simp add: Number step_def)
    then show ?thesis by blast
  next
    case (Some d)
    from step_dispatch[OF Some] show ?thesis
    proof
      assume "\<exists>n f. 0 < n \<and> (\<forall>v ts. step s (Number v # ts) = with_numbers n (Number v # ts) f)"
      then obtain n f where nf: "0 < n"
        "\<And>v ts. step s (Number v # ts) = with_numbers n (Number v # ts) f" by blast
      from with_numbers_append_cases[OF nf(1), of v pre c f] show ?thesis
        unfolding Number nf(2) by blast
    next
      assume "\<forall>v ts. step s (Number v # ts) = Inr (Some (s, ts))"
      then have "\<forall>A. step s (t # pre @ Letter c # A) = Inr (Some (s, pre @ Letter c # A))"
        by (simp add: Number)
      then show ?thesis by blast
    qed
  qed
qed

lemma interp_prefix_cong:
  assumes "\<And>s. interp s (Letter c # A) = interp s (Letter c # B)"
  shows "interp s (pre @ Letter c # A) = interp s (pre @ Letter c # B)"
proof (induction "length pre" arbitrary: pre s rule: less_induct)
  case less
  show ?case
  proof (cases pre)
    case Nil
    with assms show ?thesis by simp
  next
    case (Cons t pre')
    from step_append[of s t pre' c]
    consider (err) e where "\<And>X. step s (t # pre' @ Letter c # X) = Inl e"
      | (brk) "\<And>X. step s (t # pre' @ Letter c # X) = Inr None"
      | (go) s' r where "length r \<le> length pre'"
          "\<And>X. step s (t # pre' @ Letter c # X) = Inr (Some (s', r @ Letter c # X))"
      by blast
    then show ?thesis
    proof cases
      case err
      then show ?thesis by (simp add: Cons)
    next
      case brk
      then show ?thesis by (simp add: Cons)
    next
      case go
      from go(1) Cons have "length r < length pre" by simp
      from less[OF this, of s'] go(2) show ?thesis by (simp add: Cons)
    qed
  qed
qed

text \<open>
  C6. After a command letter and one full argument group, a numeric token that follows is
  read under an implicit repetition of the command, and under an implicit \<open>L\<close> after
  \<open>M\<close> and \<open>l\<close> after \<open>m\<close>: writing that implicit letter out in front of the token
  changes nothing in the result, whatever tokens come before and after. This holds for
  each of the eighteen commands that take numbers.
\<close>

theorem implicit_repeat:
  assumes "0 < cmd_arity c" and "length nums = cmd_arity c"
  shows "bbox_from_tokens (pre @ Letter c # map Number nums @ Number v # rest)
       = bbox_from_tokens (pre @ Letter c # map Number nums @ Letter (implicit_cmd c) # Number v # rest)"
proof -
  have "interp s (pre @ Letter c # map Number nums @ Number v # rest)
      = interp s (pre @ Letter c # map Number nums @ Letter (implicit_cmd c) # Number v # rest)" for s
    by (rule interp_prefix_cong) (rule implicit_repeat_interp[OF assms])
  then show ?thesis by (simp add: bbox_from_tokens_def)
qed

text \<open>
  C6 on the strings \<^verbatim>\<open>M10 20 30 40\<close>, \<^verbatim>\<open>m10 20 30 40\<close> and \<^verbatim>\<open>M0 0h5 6\<close>, each next
  to the string with the implicit letter written out.
\<close>

lemmas tokenize_eval = is_cmd_letter_def match_number_def match_sign_def match_mantissa_def
  match_exponent_def is_digit_def digits_value_def digit_value_def Let_def

lemmas interp_eval = bbox_from_tokens_def initial_state_def step_def cmd_defs with_numbers_def
  add_point_def Let_def eval_nat_numeral

theorem implicit_repeat_witness:
  "0 < cmd_arity CHR ''M'' \<and> length [10, 20 :: real] = cmd_arity CHR ''M''
   \<and> implicit_cmd CHR ''M'' = CHR ''L'' \<and> implicit_cmd CHR ''m'' = CHR ''l''
   \<and> implicit_cmd CHR ''h'' = CHR ''h''
   \<and> bbox_from_path_d ''M10 20 30 40'' = bbox_from_path_d ''M10 20 L30 40''
   \<and> bbox_from_path_d ''M10 20 30 40'' = Inr (Some \<lparr>minx = 10, miny = 20, maxx = 30, maxy = 40\<rparr>)
   \<and> bbox_from_path_d ''m10 20 30 40'' = bbox_from_path_d ''m10 20 l30 40''
   \<and> bbox_from_path_d ''m10 20 30 40'' = Inr (Some \<lparr>minx = 10, miny = 20, maxx = 40, maxy = 60\<rparr>)
   \<and> bbox_from_path_d ''M0 0h5 6'' = bbox_from_path_d ''M0 0h5h6''
   \<and> bbox_from_path_d ''M0 0h5 6'' = Inr (Some \<lparr>minx = 0, miny = 0, maxx = 11, maxy = 0\<rparr>)"
proof -
  have t: "tokenize ''M10 20 30 40'' = [] @ Letter CHR ''M'' # map Number [10, 20] @ Number 30 # [Number 40]"
    "tokenize ''M10 20 L30 40''
       = [] @ Letter CHR ''M'' # map Number [10, 20] @ Letter CHR ''L'' # Number 30 # [Number 40]"
    "tokenize ''m10 20 30 40'' = [] @ Letter CHR ''m'' # map Number [10, 20] @ Number 30 # [Number 40]"
    "tokenize ''m10 20 l30 40''
       = [] @ Letter CHR ''m'' # map Number [10, 20] @ Letter CHR ''l'' # Number 30 # [Number 40]"
    "tokenize ''M0 0h5 6''
       = [Letter CHR ''M'', Number 0, Number 0] @ Letter CHR ''h'' # map Number [5] @ Number 6 # []"
    "tokenize ''M0 0h5h6''
       = [Letter CHR ''M'', Number 0, Number 0] @ Letter CHR ''h'' # map Number [5] @ Letter CHR ''h'' # Number 6 # []"
    by (simp_all add: tokenize_eval)
  have a: "0 < cmd_arity CHR ''M''" "length [10, 20 :: real] = cmd_arity CHR ''M''"
    "0 < cmd_arity CHR ''m''" "length [10, 20 :: real] = cmd_arity CHR ''m''"
    "0 < cmd_arity CHR ''h''" "length [5 :: real] = cmd_arity CHR ''h''"
    by (simp_all add: cmd_arity_def)
  have i: "implicit_cmd CHR ''M'' = CHR ''L''" "implicit_cmd CHR ''m'' = CHR ''l''"
    "implicit_cmd CHR ''h'' = CHR ''h''"
    by (simp_all add: implicit_cmd_def)
  have v: "bbox_from_path_d ''M10 20 30 40'' = Inr (Some \<lparr>minx = 10, miny = 20, maxx = 30, maxy = 40\<rparr>)"
    "bbox_from_path_d ''m10 20 30 40'' = Inr (Some \<lparr>minx = 10, miny = 20, maxx = 40, maxy = 60\<rparr>)"
    "bbox_from_path_d ''M0 0h5 6'' = Inr (Some \<lparr>minx = 0, miny = 0, maxx = 11, maxy = 0\<rparr>)"
    unfolding bbox_from_path_d_def t by (simp_all add: interp_eval)
  have "bbox_from_path_d ''M10 20 30 40'' = bbox_from_path_d ''M10 20 L30 40''"
    "bbox_from_path_d ''m10 20 30 40'' = bbox_from_path_d ''m10 20 l30 40''"
    "bbox_from_path_d ''M0 0h5 6'' = bbox_from_path_d ''M0 0h5h6''"
    unfolding bbox_from_path_d_def t
    using implicit_repeat [OF a(1,2), of "[]" 30 "[Number 40]"]
      implicit_repeat [OF a(3,4), of "[]" 30 "[Number 40]"]
      implicit_repeat [OF a(5,6), of "[Letter CHR ''M'', Number 0, Number 0]" 6 "[]"]
    by (simp_all only: i)
  with a(1,2) i v show ?thesis by simp
qed

section \<open>The path interpreter: failure on malformed paths\<close>

text \<open>
  C5. The interpreter is meant to fail soft: on a command whose argument group is cut
  short by the end of the string it stops and returns the box accumulated so far, and a
  path without any visited point gives \<open>None\<close>. When the group is cut short by the next
  command letter, however, \<^verbatim>\<open>take_numbers\<close> applies \<^verbatim>\<open>float\<close> to the letter and the
  \<^verbatim>\<open>ValueError\<close> reaches the caller: the path \<^verbatim>\<open>M 10 L 20 30\<close> raises.
\<close>

theorem bbox_from_path_d_raises:
  "bbox_from_path_d ''M 10 L 20 30'' = Inl ValueError
   \<and> bbox_from_path_d ''M 1 2 L 3'' = Inr (Some \<lparr>minx = 1, miny = 2, maxx = 1, maxy = 2\<rparr>)
   \<and> bbox_from_path_d [] = Inr None
   \<and> bbox_from_path_d ''12 13'' = Inr None"
proof -
  have t: "tokenize ''M 10 L 20 30''
       = [Letter CHR ''M'', Number 10, Letter CHR ''L'', Number 20, Number 30]"
    "tokenize ''M 1 2 L 3'' = [Letter CHR ''M'', Number 1, Number 2, Letter CHR ''L'', Number 3]"
    "tokenize ''12 13'' = [Number 12, Number 13]"
    by (simp_all add: tokenize_eval)
  show ?thesis
    unfolding bbox_from_path_d_def t by (simp add: interp_eval)
qed


section \<open>Square crop\<close>

lemma powr_cancel: "(v * 2 powr (- a)) * 2 powr a = (v::real)"
  by (simp add: powr_minus)

lemma round_double_exact:
  assumes "v \<noteq> 0" and "v * 2 powr (- of_int (\<lfloor>log 2 \<bar>v\<bar>\<rfloor> - 52)) = of_int m"
  shows "round_double v = v"
proof -
  let ?e = "\<lfloor>log 2 \<bar>v\<bar>\<rfloor> - 52"
  have "round_double v = of_int (py_round (of_int m)) * 2 powr (of_int ?e)"
    using assms by (simp add: round_double_def Let_def)
  also have "\<dots> = (v * 2 powr (- of_int ?e)) * 2 powr (of_int ?e)"
    using assms(2) by (simp add: py_round_of_int)
  also have "\<dots> = v" by (rule powr_cancel)
  finally show ?thesis .
qed

lemma floor_log2_bounds:
  assumes "2 ^ k \<le> \<bar>v\<bar>" and "\<bar>v\<bar> < 2 ^ Suc k"
  shows "\<lfloor>log 2 \<bar>v\<bar>\<rfloor> = int k"
proof -
  have "(0::real) < 2 ^ k" by simp
  with assms(1) have pos: "0 < \<bar>v\<bar>" by linarith
  have "2 powr (of_int (int k)) \<le> \<bar>v\<bar> \<and> \<bar>v\<bar> < 2 powr (of_int (int k + 1))"
    using assms by (simp add: powr_realpow powr_add)
  with floor_log_eq_powr_iff[OF pos, of 2 "int k"] show ?thesis by simp
qed

lemma pow2_powr: "2 powr (real_of_int (int j)) = 2 ^ j"
  by (simp add: powr_realpow)

lemma pow2_powr_neg: "2 powr (- real_of_int (int j)) = 1 / 2 ^ j"
  by (simp add: powr_realpow powr_minus divide_inverse)









section \<open>Canvas sizing\<close>

lemma py_round_between: "\<lfloor>x\<rfloor> \<le> py_round x \<and> py_round x \<le> \<lceil>x\<rceil>"
  unfolding py_round_def Let_def by (auto; linarith)

lemma py_round_abs_le:
  assumes "\<bar>x\<bar> \<le> of_int N"
  shows "\<bar>py_round x\<bar> \<le> N"
proof -
  from assms have "- of_int N \<le> x" "x \<le> of_int N" by linarith+
  then have "- N \<le> \<lfloor>x\<rfloor>" "\<lceil>x\<rceil> \<le> N" by (simp_all add: le_floor_iff ceiling_le_iff)
  with py_round_between[of x] show ?thesis by linarith
qed

lemma py_round_sign:
  "0 \<le> x \<Longrightarrow> 0 \<le> py_round x"
  "x \<le> 0 \<Longrightarrow> py_round x \<le> 0"
proof -
  assume "0 \<le> x"
  then have "0 \<le> \<lfloor>x\<rfloor>" by simp
  with py_round_between[of x] show "0 \<le> py_round x" by linarith
next
  assume "x \<le> 0"
  then have "\<lceil>x\<rceil> \<le> 0" by (simp add: ceiling_le_iff)
  with py_round_between[of x] show "py_round x \<le> 0" by linarith
qed

lemma to_double_unfold:
  assumes "v \<noteq> 0"
  shows "to_double v =
     (if \<bar>real_of_int (py_round (v * 2 powr (- real_of_int (max (\<lfloor>log 2 \<bar>v\<bar>\<rfloor> - 52) (- 1074)))))
           * 2 powr (real_of_int (max (\<lfloor>log 2 \<bar>v\<bar>\<rfloor> - 52) (- 1074)))\<bar> < 2 ^ 1024
      then Finite (real_of_int (py_round (v * 2 powr (- real_of_int (max (\<lfloor>log 2 \<bar>v\<bar>\<rfloor> - 52) (- 1074)))))
           * 2 powr (real_of_int (max (\<lfloor>log 2 \<bar>v\<bar>\<rfloor> - 52) (- 1074))))
      else if 0 < v then PosInf else NegInf)"
  unfolding to_double_def Let_def using assms by (simp only: if_False)

lemma to_double_bound:
  assumes "\<bar>v\<bar> \<le> 2 ^ n" and "n < 1024"
  shows "\<exists>r. to_double v = Finite r \<and> \<bar>r\<bar> \<le> 2 ^ n \<and> (0 \<le> v \<longrightarrow> 0 \<le> r) \<and> (v \<le> 0 \<longrightarrow> r \<le> 0)"
proof (cases "v = 0")
  case True
  then show ?thesis by (simp add: to_double_def)
next
  case False
  define e where "e = max (\<lfloor>log 2 \<bar>v\<bar>\<rfloor> - 52) (- 1074)"
  define x where "x = v * 2 powr (- real_of_int e)"
  define r where "r = real_of_int (py_round x) * 2 powr (real_of_int e)"
  have td: "to_double v = (if \<bar>r\<bar> < 2 ^ 1024 then Finite r else if 0 < v then PosInf else NegInf)"
    unfolding r_def x_def e_def by (rule to_double_unfold[OF False])
  have pos: "0 < \<bar>v\<bar>" using False by simp
  have "\<bar>v\<bar> \<le> 2 powr (real n)" using assms(1) by (simp add: powr_realpow)
  then have "log 2 \<bar>v\<bar> \<le> real n" using pos by (simp add: log_le_iff)
  then have "\<lfloor>log 2 \<bar>v\<bar>\<rfloor> \<le> int n" by (simp add: floor_le_iff)
  then have en: "e \<le> int n" unfolding e_def by simp
  define j where "j = nat (int n - e)"
  have j: "int n = e + int j" using en by (simp add: j_def)
  have pw: "2 powr (real n) = 2 powr (of_int e) * 2 ^ j"
  proof -
    have "real n = of_int e + real j" using j by (metis of_int_add of_int_of_nat_eq)
    then show ?thesis by (simp add: powr_add powr_realpow)
  qed
  have pe: "0 < (2::real) powr (of_int e)" by simp
  have inv: "2 powr (- of_int e) * 2 powr (of_int e) = (1::real)"
    by (simp add: powr_minus)
  have "\<bar>x\<bar> = \<bar>v\<bar> * 2 powr (- of_int e)" by (simp add: x_def abs_mult)
  also have "\<dots> \<le> 2 powr (real n) * 2 powr (- of_int e)"
    using \<open>\<bar>v\<bar> \<le> 2 powr (real n)\<close> by (simp add: mult_right_mono)
  also have "\<dots> = 2 ^ j" unfolding pw using inv by (simp add: mult.commute mult.left_commute)
  finally have "\<bar>x\<bar> \<le> of_int (2 ^ j)" by simp
  then have pr: "\<bar>py_round x\<bar> \<le> 2 ^ j" by (rule py_round_abs_le)
  have "\<bar>r\<bar> = of_int \<bar>py_round x\<bar> * 2 powr (of_int e)" by (simp add: r_def abs_mult)
  also have "\<dots> \<le> of_int (2 ^ j) * 2 powr (of_int e)"
    using pr by (intro mult_right_mono) (simp_all only: of_int_le_iff powr_ge_zero)
  also have "\<dots> = 2 powr (real n)" unfolding pw by simp
  also have "\<dots> = 2 ^ n" by (simp add: powr_realpow)
  finally have rb: "\<bar>r\<bar> \<le> 2 ^ n" .
  have "(2::real) ^ n < 2 ^ 1024" using assms(2) by (intro power_strict_increasing) simp_all
  with rb have fin: "\<bar>r\<bar> < 2 ^ 1024" by linarith
  have s1: "0 \<le> r" if "0 \<le> v"
  proof -
    from that have "0 \<le> x" by (simp add: x_def)
    then have "0 \<le> py_round x" by (rule py_round_sign)
    then show ?thesis by (simp add: r_def)
  qed
  have s2: "r \<le> 0" if "v \<le> 0"
  proof -
    from that have "x \<le> 0" by (simp add: x_def mult_nonpos_nonneg)
    then have "py_round x \<le> 0" by (rule py_round_sign)
    then show ?thesis by (simp add: r_def mult_nonpos_nonneg)
  qed
  from td fin rb s1 s2 show ?thesis by auto
qed


lemma to_double_nonpos:
  assumes "v \<le> 0"
  shows "to_double v = NegInf \<or> (\<exists>r. r \<le> 0 \<and> to_double v = Finite r)"
proof (cases "v = 0")
  case True
  then show ?thesis by (simp add: to_double_def)
next
  case False
  define e where "e = max (\<lfloor>log 2 \<bar>v\<bar>\<rfloor> - 52) (- 1074)"
  define x where "x = v * 2 powr (- real_of_int e)"
  define r where "r = real_of_int (py_round x) * 2 powr (real_of_int e)"
  have td: "to_double v = (if \<bar>r\<bar> < 2 ^ 1024 then Finite r else if 0 < v then PosInf else NegInf)"
    unfolding r_def x_def e_def by (rule to_double_unfold[OF False])
  from assms have "x \<le> 0" by (simp add: x_def mult_nonpos_nonneg)
  then have "py_round x \<le> 0" by (rule py_round_sign)
  then have "r \<le> 0" by (simp add: r_def mult_nonpos_nonneg)
  with td assms show ?thesis by auto
qed

lemma py_max_floor:
  assumes "v < 1"
  shows "py_max (to_double v) (Finite 1) = Finite 1"
proof (cases "v \<le> 0")
  case True
  from to_double_nonpos[OF this] show ?thesis by (auto simp: py_max_def)
next
  case False
  with assms have "\<bar>v\<bar> \<le> 2 ^ 0" by simp
  from to_double_bound[OF this] obtain r where "to_double v = Finite r" "\<bar>r\<bar> \<le> 1" by auto
  then show ?thesis by (auto simp: py_max_def)
qed

lemma py_max_dim:
  assumes "\<bar>v\<bar> \<le> 2 ^ n" and "n < 1024"
  shows "\<exists>r. py_max (to_double v) (Finite 1) = Finite r \<and> 1 \<le> r \<and> r \<le> 2 ^ n"
proof -
  from to_double_bound[OF assms] obtain r where r: "to_double v = Finite r" "\<bar>r\<bar> \<le> 2 ^ n" by blast
  have one: "(1::real) \<le> 2 ^ n" by simp
  show ?thesis
  proof (cases "r < 1")
    case True
    with r(1) one show ?thesis by (simp add: py_max_def)
  next
    case False
    with r show ?thesis by (simp add: py_max_def)
  qed
qed

lemma svg_canvas_returns:
  assumes w: "\<bar>maxx vb - minx vb\<bar> \<le> 2 ^ 900" and h: "\<bar>maxy vb - miny vb\<bar> \<le> 2 ^ 900"
    and m: "\<bar>max_w\<bar> \<le> 2 ^ 100"
  shows "\<exists>ch. svg_canvas_for_viewbox vb max_w = Inr (max_w, ch)"
proof -
  from py_max_dim[OF w] obtain fw where fw: "py_max (float_w vb) (Finite 1) = Finite fw" "1 \<le> fw"
    unfolding float_w_def by auto
  from py_max_dim[OF h] obtain fh where fh: "py_max (float_h vb) (Finite 1) = Finite fh" "1 \<le> fh" "fh \<le> 2 ^ 900"
    unfolding float_h_def by auto
  have "\<bar>fh / fw\<bar> \<le> 2 ^ 900"
  proof -
    have "fh / fw \<le> fh" using fw(2) fh(2) by (simp add: divide_le_eq_1 field_simps mult_left_le)
    moreover have "0 \<le> fh / fw" using fw(2) fh(2) by simp
    ultimately show ?thesis using fh(3) by linarith
  qed
  from to_double_bound[OF this] obtain q where q: "to_double (fh / fw) = Finite q" "\<bar>q\<bar> \<le> 2 ^ 900" by auto
  from fw(2) have dv: "float_div (Finite fh) (Finite fw) = Inr (Finite q)" by (simp add: q(1))
  from m have "\<bar>real_of_int max_w\<bar> \<le> 2 ^ 100"
    by (metis of_int_abs of_int_le_numeral_power_cancel_iff)
  from to_double_bound[OF this] obtain fm where fm: "to_double (of_int max_w) = Finite fm" "\<bar>fm\<bar> \<le> 2 ^ 100" by auto
  then have cv: "int_to_float max_w = Inr (Finite fm)" by (simp add: int_to_float_def)
  have "\<bar>fm * q\<bar> \<le> 2 ^ 100 * 2 ^ 900" unfolding abs_mult using fm(2) q(2) by (intro mult_mono) simp_all
  then have "\<bar>fm * q\<bar> \<le> 2 ^ 1000" by (simp add: power_add[symmetric])
  from to_double_bound[OF this] obtain x where x: "to_double (fm * q) = Finite x" by auto
  show ?thesis
    using fw(2) by (simp add: svg_canvas_for_viewbox_def Let_def fw(1) fh(1) cv q(1) x)
qed


lemma py_round_numeral [simp]: "py_round (numeral w) = numeral w" "py_round 1 = 1" "py_round 0 = 0"
  using py_round_of_int[of "numeral w"] py_round_of_int[of 1] py_round_of_int[of 0] by simp_all

lemma to_double_binade:
  assumes "2 ^ k \<le> \<bar>v\<bar>" and "\<bar>v\<bar> < 2 ^ Suc k"
  shows "to_double v =
     (let r = (if 52 \<le> k then real_of_int (py_round (v / 2 ^ (k - 52))) * 2 ^ (k - 52)
               else real_of_int (py_round (v * 2 ^ (52 - k))) / 2 ^ (52 - k))
      in if \<bar>r\<bar> < 2 ^ 1024 then Finite r else if 0 < v then PosInf else NegInf)"
proof -
  have "(0::real) < 2 ^ k" by simp
  with assms(1) have "0 < \<bar>v\<bar>" by linarith
  then have nz: "v \<noteq> 0" by simp
  have fl: "\<lfloor>log 2 \<bar>v\<bar>\<rfloor> = int k" by (rule floor_log2_bounds[OF assms])
  have mx: "max (int k - 52) (- 1074) = int k - 52" by simp
  show ?thesis
  proof (cases "52 \<le> k")
    case True
    then have e: "int k - 52 = int (k - 52)" by simp
    have p1: "2 powr (- real_of_int (int k - 52)) = 1 / 2 ^ (k - 52)"
      unfolding e by (rule pow2_powr_neg)
    have p2: "2 powr (real_of_int (int k - 52)) = 2 ^ (k - 52)"
      unfolding e by (rule pow2_powr)
    show ?thesis
      unfolding to_double_unfold[OF nz] fl mx p1 p2 Let_def using True by simp
  next
    case False
    then have e: "int k - 52 = - int (52 - k)" by simp
    have p1: "2 powr (- real_of_int (int k - 52)) = 2 ^ (52 - k)"
      unfolding e using pow2_powr[of "52 - k"] by simp
    have p2: "2 powr (real_of_int (int k - 52)) = 1 / 2 ^ (52 - k)"
      unfolding e using pow2_powr_neg[of "52 - k"] by simp
    show ?thesis
      unfolding to_double_unfold[OF nz] fl mx p1 p2 Let_def using False by simp
  qed
qed

lemma to_double_values:
  "to_double 1 = Finite 1"
  "to_double 6 = Finite 6"
  "to_double 7 = Finite 7"
  "to_double 201 = Finite 201"
  "to_double 640 = Finite 640"
  "to_double (7 / 6) = Finite (5254199565265579 / 4503599627370496)"
  "to_double (201 * (5254199565265579 / 4503599627370496)) = Finite (8250735254831105 / 35184372088832)"
  "to_double (2 ^ 1024) = PosInf"
proof -
  show "to_double 1 = Finite 1" using to_double_binade[of 0 1] by simp
  show "to_double 6 = Finite 6" using to_double_binade[of 2 6] by simp
  show "to_double 7 = Finite 7" using to_double_binade[of 2 7] by simp
  show "to_double 201 = Finite 201" using to_double_binade[of 7 201] by simp
  show "to_double 640 = Finite 640" using to_double_binade[of 9 640] by simp
  have f1: "\<lfloor>7 / 6 * 2 ^ 52 :: real\<rfloor> = 5254199565265578" by (simp add: floor_eq_iff)
  have "py_round (7 / 6 * 2 ^ 52) = 5254199565265579"
    unfolding py_round_def Let_def f1 by simp
  then show "to_double (7 / 6) = Finite (5254199565265579 / 4503599627370496)"
    using to_double_binade[of 0 "7 / 6"] by simp
  have f2: "\<lfloor>201 * (5254199565265579 / 4503599627370496) * 2 ^ 45 :: real\<rfloor> = 8250735254831104"
    by (simp add: floor_eq_iff)
  have "py_round (201 * (5254199565265579 / 4503599627370496) * 2 ^ 45) = 8250735254831105"
    unfolding py_round_def Let_def f2 by simp
  then show "to_double (201 * (5254199565265579 / 4503599627370496))
      = Finite (8250735254831105 / 35184372088832)"
    using to_double_binade[of 7 "201 * (5254199565265579 / 4503599627370496)"] by simp
  show "to_double (2 ^ 1024) = PosInf" using to_double_binade[of 1024 "2 ^ 1024"] by simp
qed

lemma py_round_235: "py_round (8250735254831105 / 35184372088832) = 235"
proof -
  have "\<lfloor>8250735254831105 / 35184372088832 :: real\<rfloor> = 234" by (simp add: floor_eq_iff)
  then show ?thesis unfolding py_round_def Let_def by simp
qed


lemma to_double_product:
  "to_double (1056094112618381379 / 4503599627370496) = Finite (8250735254831105 / 35184372088832)"
  using to_double_values(7) by simp

lemma svg_canvas_example:
  "svg_canvas_for_viewbox \<lparr>minx = 0, miny = 0, maxx = 6, maxy = 7\<rparr> 201 = Inr (201, 235)"
  by (simp add: svg_canvas_for_viewbox_def Let_def float_w_def float_h_def py_max_def
      int_to_float_def to_double_values to_double_product py_round_235)

lemma svg_canvas_small:
  "svg_canvas_for_viewbox \<lparr>minx = 0, miny = 0, maxx = 1 / 2, maxy = 1 / 4\<rparr> 640 = Inr (640, 640)"
proof -
  have w: "py_max (float_w \<lparr>minx = 0, miny = 0, maxx = 1 / 2, maxy = 1 / 4\<rparr>) (Finite 1) = Finite 1"
    unfolding float_w_def by (rule py_max_floor) simp
  have h: "py_max (float_h \<lparr>minx = 0, miny = 0, maxx = 1 / 2, maxy = 1 / 4\<rparr>) (Finite 1) = Finite 1"
    unfolding float_h_def by (rule py_max_floor) simp
  show ?thesis
    unfolding svg_canvas_for_viewbox_def Let_def w h
    by (simp add: int_to_float_def to_double_values)
qed

lemma svg_canvas_overflow:
  "svg_canvas_for_viewbox \<lparr>minx = 0, miny = - (2 ^ 1023), maxx = 1, maxy = 2 ^ 1023\<rparr> 640
     = Inl OverflowError"
proof -
  have "(2::real) ^ 1023 - - (2 ^ 1023) = 2 ^ 1024" by simp
  then have h: "float_h \<lparr>minx = 0, miny = - (2 ^ 1023), maxx = 1, maxy = 2 ^ 1023\<rparr> = PosInf"
    unfolding float_h_def by (simp only: BBox.simps to_double_values)
  have w: "float_w \<lparr>minx = 0, miny = - (2 ^ 1023), maxx = 1, maxy = 2 ^ 1023\<rparr> = Finite 1"
    unfolding float_w_def by (simp add: to_double_values)
  show ?thesis
    unfolding svg_canvas_for_viewbox_def Let_def w h
    by (simp add: py_max_def int_to_float_def to_double_values)
qed

text \<open>
  C9, as amended. Whenever canvas sizing returns, the width is the maximum width and the
  height is the rounded float product \<open>max_w * (h / w)\<close> clamped into \<open>[220, 640]\<close>,
  so never outside that range; \<open>w\<close> and \<open>h\<close> are the float width and height of the
  viewport, each raised to 1 when it is less than 1. It returns for every viewport whose
  width and height are at most \<open>2^900\<close> in absolute value and every maximum width of
  at most \<open>2^100\<close> in absolute value; beyond the float range it raises.
\<close>

theorem svg_canvas_for_viewbox_result:
  "(svg_canvas_for_viewbox vb max_w = Inr (cw, ch) \<longrightarrow>
      cw = max_w \<and> 220 \<le> ch \<and> ch \<le> 640
      \<and> (\<exists>q m x. float_div (py_max (float_h vb) (Finite 1)) (py_max (float_w vb) (Finite 1)) = Inr q
             \<and> int_to_float max_w = Inr m \<and> float_mul m q = Finite x
             \<and> ch = max 220 (min 640 (py_round x))))
   \<and> (maxx vb - minx vb < 1 \<longrightarrow> py_max (float_w vb) (Finite 1) = Finite 1)
   \<and> (maxy vb - miny vb < 1 \<longrightarrow> py_max (float_h vb) (Finite 1) = Finite 1)
   \<and> (\<bar>maxx vb - minx vb\<bar> \<le> 2 ^ 900 \<and> \<bar>maxy vb - miny vb\<bar> \<le> 2 ^ 900 \<and> \<bar>max_w\<bar> \<le> 2 ^ 100
        \<longrightarrow> (\<exists>ch'. svg_canvas_for_viewbox vb max_w = Inr (max_w, ch')))"
proof (intro conjI impI)
  assume r: "svg_canvas_for_viewbox vb max_w = Inr (cw, ch)"
  let ?d = "float_div (py_max (float_h vb) (Finite 1)) (py_max (float_w vb) (Finite 1))"
  from r obtain q where q: "?d = Inr q"
    by (cases ?d) (simp_all add: svg_canvas_for_viewbox_def Let_def)
  from r q obtain m where m: "int_to_float max_w = Inr m"
    by (cases "int_to_float max_w") (simp_all add: svg_canvas_for_viewbox_def Let_def)
  from r q m obtain height where hg: "float_round (float_mul m q) = Inr height"
    by (cases "float_round (float_mul m q)") (simp_all add: svg_canvas_for_viewbox_def Let_def)
  then obtain x where x: "float_mul m q = Finite x" "height = py_round x"
    by (cases "float_mul m q") simp_all
  from r q m hg have res: "cw = max_w" "ch = max 220 (min 640 height)"
    by (simp_all add: svg_canvas_for_viewbox_def Let_def)
  from res(1) show "cw = max_w" .
  from res(2) show "220 \<le> ch" by simp
  from res(2) show "ch \<le> 640" by simp
  from q m x res(2) show "\<exists>q m x. ?d = Inr q \<and> int_to_float max_w = Inr m \<and> float_mul m q = Finite x
             \<and> ch = max 220 (min 640 (py_round x))" by blast
next
  assume "maxx vb - minx vb < 1"
  then show "py_max (float_w vb) (Finite 1) = Finite 1" unfolding float_w_def by (rule py_max_floor)
next
  assume "maxy vb - miny vb < 1"
  then show "py_max (float_h vb) (Finite 1) = Finite 1" unfolding float_h_def by (rule py_max_floor)
next
  assume "\<bar>maxx vb - minx vb\<bar> \<le> 2 ^ 900 \<and> \<bar>maxy vb - miny vb\<bar> \<le> 2 ^ 900 \<and> \<bar>max_w\<bar> \<le> 2 ^ 100"
  then show "\<exists>ch'. svg_canvas_for_viewbox vb max_w = Inr (max_w, ch')"
    using svg_canvas_returns by blast
qed

text \<open>
  C9, as amended, at a viewport of width 6 and height 7 with maximum width 201, where
  the quotient and the product both round up and the height is 235, and at a viewport of
  width \<open>1/2\<close> and height \<open>1/4\<close>.
\<close>

theorem svg_canvas_for_viewbox_result_witness:
  "svg_canvas_for_viewbox \<lparr>minx = 0, miny = 0, maxx = 6, maxy = 7\<rparr> 201 = Inr (201, 235)
   \<and> (220::int) \<le> 235 \<and> (235::int) \<le> 640
   \<and> float_div (py_max (float_h \<lparr>minx = 0, miny = 0, maxx = 6, maxy = 7\<rparr>) (Finite 1))
                 (py_max (float_w \<lparr>minx = 0, miny = 0, maxx = 6, maxy = 7\<rparr>) (Finite 1))
       = Inr (Finite (5254199565265579 / 4503599627370496))
   \<and> maxx \<lparr>minx = 0, miny = 0, maxx = 1 / 2, maxy = 1 / 4\<rparr>
         - minx \<lparr>minx = 0, miny = 0, maxx = 1 / 2, maxy = 1 / 4\<rparr> < 1
   \<and> py_max (float_w \<lparr>minx = 0, miny = 0, maxx = 1 / 2, maxy = 1 / 4\<rparr>) (Finite 1) = Finite 1
   \<and> maxy \<lparr>minx = 0, miny = 0, maxx = 1 / 2, maxy = 1 / 4\<rparr>
         - miny \<lparr>minx = 0, miny = 0, maxx = 1 / 2, maxy = 1 / 4\<rparr> < 1
   \<and> py_max (float_h \<lparr>minx = 0, miny = 0, maxx = 1 / 2, maxy = 1 / 4\<rparr>) (Finite 1) = Finite 1
   \<and> \<bar>maxx \<lparr>minx = 0, miny = 0, maxx = 6, maxy = 7\<rparr> - minx \<lparr>minx = 0, miny = 0, maxx = 6, maxy = 7\<rparr>\<bar> \<le> 2 ^ 900
   \<and> \<bar>maxy \<lparr>minx = 0, miny = 0, maxx = 6, maxy = 7\<rparr> - miny \<lparr>minx = 0, miny = 0, maxx = 6, maxy = 7\<rparr>\<bar> \<le> 2 ^ 900
   \<and> \<bar>201 :: int\<bar> \<le> 2 ^ 100"
proof -
  note t1 = svg_canvas_for_viewbox_result
      [of "\<lparr>minx = 0, miny = 0, maxx = 6, maxy = 7\<rparr>" 201 201 235]
  note t2 = svg_canvas_for_viewbox_result
      [of "\<lparr>minx = 0, miny = 0, maxx = 1 / 2, maxy = 1 / 4\<rparr>" 640 640 640]
  have b: "\<bar>maxx \<lparr>minx = 0, miny = 0, maxx = 6, maxy = 7\<rparr> - minx \<lparr>minx = 0, miny = 0, maxx = 6, maxy = 7\<rparr>\<bar> \<le> 2 ^ 900"
    "\<bar>maxy \<lparr>minx = 0, miny = 0, maxx = 6, maxy = 7\<rparr> - miny \<lparr>minx = 0, miny = 0, maxx = 6, maxy = 7\<rparr>\<bar> \<le> 2 ^ 900"
    "\<bar>201 :: int\<bar> \<le> 2 ^ 100"
    by simp_all
  have s: "maxx \<lparr>minx = 0, miny = 0, maxx = 1 / 2, maxy = 1 / 4\<rparr>
         - minx \<lparr>minx = 0, miny = 0, maxx = 1 / 2, maxy = 1 / 4\<rparr> < 1"
    "maxy \<lparr>minx = 0, miny = 0, maxx = 1 / 2, maxy = 1 / 4\<rparr>
         - miny \<lparr>minx = 0, miny = 0, maxx = 1 / 2, maxy = 1 / 4\<rparr> < 1"
    by simp_all
  have d: "float_div (py_max (float_h \<lparr>minx = 0, miny = 0, maxx = 6, maxy = 7\<rparr>) (Finite 1))
                 (py_max (float_w \<lparr>minx = 0, miny = 0, maxx = 6, maxy = 7\<rparr>) (Finite 1))
       = Inr (Finite (5254199565265579 / 4503599627370496))"
    by (simp add: float_w_def float_h_def py_max_def to_double_values)
  from t1 svg_canvas_example have r: "(220::int) \<le> 235 \<and> (235::int) \<le> 640" by blast
  from t2 s have f: "py_max (float_w \<lparr>minx = 0, miny = 0, maxx = 1 / 2, maxy = 1 / 4\<rparr>) (Finite 1) = Finite 1"
    "py_max (float_h \<lparr>minx = 0, miny = 0, maxx = 1 / 2, maxy = 1 / 4\<rparr>) (Finite 1) = Finite 1"
    by blast+
  from svg_canvas_example r d s f b show ?thesis by (intro conjI) blast+
qed

text \<open>
  C9 as stated fails. A viewport of width \<open>1/2\<close> and height \<open>1/4\<close> has both
  dimensions greater than zero, so the stated formula gives \<open>round (640 * (1/4) / (1/2))
  = 320\<close>; the code raises both dimensions to 1 and returns 640. And for the viewport from
  \<open>(0, -2^1023)\<close> to \<open>(1, 2^1023)\<close> the height overflows to infinity and canvas sizing
  raises \<^verbatim>\<open>OverflowError\<close> instead of returning.
\<close>

theorem canvas_height_spec_counterexample:
  "svg_canvas_for_viewbox \<lparr>minx = 0, miny = 0, maxx = 1 / 2, maxy = 1 / 4\<rparr> 640 = Inr (640, 640)
   \<and> spec_canvas_height \<lparr>minx = 0, miny = 0, maxx = 1 / 2, maxy = 1 / 4\<rparr> 640 = 320
   \<and> svg_canvas_for_viewbox \<lparr>minx = 0, miny = - (2 ^ 1023), maxx = 1, maxy = 2 ^ 1023\<rparr> 640
     = Inl OverflowError"
proof -
  have "spec_canvas_height \<lparr>minx = 0, miny = 0, maxx = 1 / 2, maxy = 1 / 4\<rparr> 640 = 320"
    by (simp add: spec_canvas_height_def bbox_w_def bbox_h_def)
  with svg_canvas_small svg_canvas_overflow show ?thesis by blast
qed


end
